theory Spec2Isabelle
  imports Complex_Main "HOL-Library.Word" "HOL-Library.Multiset"
begin

section \<open>Shared vocabulary of the two benchmark programs\<close>

text \<open>
  Both programs are a single \<open>main\<close> that talks to a device through buffers and kernels
  and to the user through the two output streams.  What a run does is recorded as the list
  of these actions, in program order.  Kernel names and message texts are the string
  literals of the source.
\<close>

type_synonym u32 = "32 word"

datatype buffer = as_gpu | bs_gpu | cs_gpu | result_gpu

datatype WorkSize =
    WorkSize1 u32 u32             \<comment> \<open>\<open>gpu::WorkSize(groupSizeX, workSizeX)\<close>\<close>
  | WorkSize2 u32 u32 u32 u32     \<comment> \<open>\<open>gpu::WorkSize(groupSizeX, groupSizeY, workSizeX, workSizeY)\<close>\<close>

datatype event =
    TimerStart                    \<comment> \<open>\<open>timer t;\<close>\<close>
  | NextLap                       \<comment> \<open>\<open>t.nextLap()\<close>, the end of one trial\<close>
  | WriteN buffer                 \<comment> \<open>host to device\<close>
  | ReadN buffer                  \<comment> \<open>device to host\<close>
  | Compile string                \<comment> \<open>\<open>kernel.compile()\<close> of the named entry point\<close>
  | Exec string WorkSize          \<comment> \<open>\<open>kernel.exec(WorkSize, ...)\<close>\<close>
  | Check string                  \<comment> \<open>the candidate of the named variant is compared with the reference\<close>
  | Cout string                   \<comment> \<open>a line on standard output\<close>
  | Cerr string                   \<comment> \<open>a line on standard error\<close>

text \<open>
  A run is kept in the shape of the program: one entry per braced block of \<open>main\<close>, with
  the actions before its trial loop, the actions of every iteration of the loop (one list
  per trial), and the actions after the loop.  Statements of \<open>main\<close> between two blocks
  are an entry without trials.
\<close>

record block_run =
  label :: string
  before :: "event list"
  trials :: "event list list"
  after :: "event list"

definition events_of :: "block_run \<Rightarrow> event list" where
  "events_of b = before b @ concat (trials b) @ after b"

definition trace :: "block_run list \<Rightarrow> event list" where
  "trace bs = concat (map events_of bs)"

fun is_Exec :: "event \<Rightarrow> bool" where
  "is_Exec (Exec kernel_name ws) = True"
| "is_Exec e = False"

fun is_Check :: "event \<Rightarrow> bool" where
  "is_Check (Check v) = True"
| "is_Check e = False"

section \<open>\<open>main_sum.cpp\<close>: the reduction benchmark\<close>

subsection \<open>Constants\<close>

definition benchmarkingIters :: nat where
  "benchmarkingIters = 10"

definition n :: u32 where
  "n = 100 * 1000 * 1000"

definition UINT_MAX :: u32 where
  "UINT_MAX = 4294967295"

definition workGroupSize :: u32 where
  "workGroupSize = 128"

subsection \<open>Workload generation\<close>

text \<open>
  Modelled from the spec: \<open>FastRandom::next\<close> (header \<open>libutils/fast_random.h\<close>, not part
  of the sources).  The spec says that integer values are drawn from \<open>[lo, hi]\<close>; the
  generator's raw output for a call is reduced into that range.  The stream of raw outputs
  \<open>raw 0, raw 1, ...\<close> stands for the seed: one seed fixes one stream.
\<close>

definition FastRandom_next :: "nat \<Rightarrow> nat \<Rightarrow> nat \<Rightarrow> nat" where
  "FastRandom_next x lo hi = lo + x mod (hi - lo + 1)"

text \<open>
  The generation loop of \<open>main\<close>: \<open>as[i] = (unsigned int) r.next(0, UINT_MAX / n)\<close>
  and \<open>reference_sum += as[i]\<close>, for \<open>i\<close> from 0 to \<open>n - 1\<close>, starting from
  \<open>as = vector(n, 0)\<close> and \<open>reference_sum = 0\<close>.  The element count is a parameter of the
  model; the program fixes it to \<^term>\<open>n\<close>.
\<close>

definition generate_step :: "(nat \<Rightarrow> nat) \<Rightarrow> u32 \<Rightarrow> nat \<Rightarrow> u32 list \<times> u32 \<Rightarrow> u32 list \<times> u32" where
  "generate_step raw cnt i st =
     (let v = (word_of_nat (FastRandom_next (raw i) 0 (unat (UINT_MAX div cnt))) :: u32)
      in ((fst st)[i := v], snd st + v))"

definition generate :: "(nat \<Rightarrow> nat) \<Rightarrow> u32 \<Rightarrow> u32 list \<times> u32" where
  "generate raw cnt =
     fold (generate_step raw cnt) [0..<unat cnt] (replicate (unat cnt) 0, 0)"

subsection \<open>Host reductions\<close>

text \<open>The sequential loop \<open>for (i = 0; i < n; ++i) sum += as[i]\<close> on 32-bit unsigned values.\<close>

definition sequential_sum :: "u32 list \<Rightarrow> nat \<Rightarrow> u32" where
  "sequential_sum xs cnt = fold (\<lambda>i sum. sum + xs ! i) [0..<cnt] 0"

text \<open>
  The loop under \<open>#pragma omp parallel for reduction(+:sum)\<close>.  Every thread of the team
  owns a private accumulator that starts at 0 and runs the iterations it was given; at the
  end the private accumulators are added to the shared \<open>sum\<close>.  Which thread runs which
  iteration is the schedule: one list of iteration indices per thread, the threads listed in
  the order in which their partial sums are combined.  A schedule is admissible when every
  iteration is run exactly once.
\<close>

definition thread_sum :: "u32 list \<Rightarrow> nat list \<Rightarrow> u32" where
  "thread_sum xs its = fold (\<lambda>i sum. sum + xs ! i) its 0"

definition omp_sum :: "u32 list \<Rightarrow> nat list list \<Rightarrow> u32" where
  "omp_sum xs schedule = fold (\<lambda>its sum. sum + thread_sum xs its) schedule 0"

definition omp_schedule :: "nat \<Rightarrow> nat list list \<Rightarrow> bool" where
  "omp_schedule cnt schedule \<longleftrightarrow> sort (concat schedule) = [0..<cnt]"

text \<open>The schedule the spec describes: the array cut into contiguous chunks of given lengths.\<close>

fun contiguous_chunks :: "nat \<Rightarrow> nat list \<Rightarrow> nat list list" where
  "contiguous_chunks start [] = []"
| "contiguous_chunks start (len # lens) =
     [start..<start + len] # contiguous_chunks (start + len) lens"

subsection \<open>Launch geometry\<close>

text \<open>
  \<open>(n + workGroupSize - 1) / workGroupSize * workGroupSize\<close> for \<open>sum_naive\<close>,
  \<open>sum_local\<close> and \<open>sum_tree\<close>, and the same with \<open>n / 64\<close> for \<open>sum_loop\<close> and
  \<open>sum_loop_coalesced\<close>, in \<open>unsigned int\<close> arithmetic.
\<close>

definition global_work_size :: "string \<Rightarrow> u32 \<Rightarrow> u32" where
  "global_work_size kernel_name cnt =
     (if kernel_name = ''sum_loop'' \<or> kernel_name = ''sum_loop_coalesced''
      then (cnt div 64 + workGroupSize - 1) div workGroupSize * workGroupSize
      else (cnt + workGroupSize - 1) div workGroupSize * workGroupSize)"

definition sum_kernels :: "string list" where
  "sum_kernels = [''sum_naive'', ''sum_loop'', ''sum_loop_coalesced'', ''sum_local'', ''sum_tree'']"

subsection \<open>Validation by exact equality\<close>

datatype error = RuntimeError string    \<comment> \<open>\<open>std::runtime_error(message)\<close>\<close>

text \<open>
  \<open>raiseFail(a, b, message, ...)\<close> behind the macro \<open>EXPECT_THE_SAME\<close>: on a mismatch it
  writes to standard error and throws; \<open>main\<close> has no handler, so the exception ends the
  process.  The result is the output written and either the exception or normal return.
\<close>

definition raiseFail :: "u32 \<Rightarrow> u32 \<Rightarrow> string \<Rightarrow> event list \<times> (error + unit)" where
  "raiseFail a b message =
     (if a \<noteq> b then ([Cerr message], Inl (RuntimeError message)) else ([], Inr ()))"

subsection \<open>The seven benchmarked variants\<close>

text \<open>
  The two host variants and the five kernels go through blocks of the same shape.  The
  device is a black box: \<open>device kernel_name iter\<close> is the value found in \<open>result_gpu\<close>
  after the launch of trial \<open>iter\<close> of that kernel (the kernel bodies are not part of the
  sources).  \<open>schedule iter\<close> is the OpenMP schedule of trial \<open>iter\<close>.
\<close>

definition sum_variants :: "string list" where
  "sum_variants = [''CPU'', ''CPU OMP''] @ sum_kernels"

definition message :: "string \<Rightarrow> string" where
  "message v =
     (if v = ''CPU'' then ''CPU result should be consistent!''
      else if v = ''CPU OMP'' then ''CPU OpenMP result should be consistent!''
      else ''GPU result must be equal to CPU result!'')"

definition candidate ::
  "u32 list \<Rightarrow> u32 \<Rightarrow> (nat \<Rightarrow> nat list list) \<Rightarrow> (string \<Rightarrow> nat \<Rightarrow> u32) \<Rightarrow> string \<Rightarrow> nat \<Rightarrow> u32" where
  "candidate xs cnt schedule device v iter =
     (if v = ''CPU'' then sequential_sum xs (unat cnt)
      else if v = ''CPU OMP'' then omp_sum xs (schedule iter)
      else device v iter)"

text \<open>What a trial does before it compares: nothing on the host; on the device the result
  cell is zeroed, the kernel launched and the result cell read back.\<close>

definition launch :: "string \<Rightarrow> u32 \<Rightarrow> event list" where
  "launch v cnt =
     (if v = ''CPU'' \<or> v = ''CPU OMP'' then []
      else [WriteN result_gpu,
            Exec v (WorkSize1 workGroupSize (global_work_size v cnt)),
            ReadN result_gpu])"

definition trial :: "u32 \<Rightarrow> u32 \<Rightarrow> string \<Rightarrow> u32 \<Rightarrow> event list \<times> (error + unit)" where
  "trial cnt reference_sum v result =
     (case raiseFail reference_sum result (message v) of
        (out, Inl e) \<Rightarrow> (launch v cnt @ [Check v] @ out, Inl e)
      | (out, Inr u) \<Rightarrow> (launch v cnt @ [Check v] @ out @ [NextLap], Inr ()))"

text \<open>The loop \<open>for (iter = 0; iter < benchmarkingIters; ++iter)\<close>: an exception leaves it.\<close>

fun trial_loop :: "(nat \<Rightarrow> event list \<times> (error + unit)) \<Rightarrow> nat list \<Rightarrow> event list list \<times> (error + unit)" where
  "trial_loop body [] = ([], Inr ())"
| "trial_loop body (iter # iters) =
     (case body iter of
        (es, Inl e) \<Rightarrow> ([es], Inl e)
      | (es, Inr u) \<Rightarrow> (case trial_loop body iters of (ts, r) \<Rightarrow> (es # ts, r)))"

definition sum_block ::
  "u32 \<Rightarrow> nat \<Rightarrow> u32 \<Rightarrow> (nat \<Rightarrow> u32) \<Rightarrow> string \<Rightarrow> block_run \<times> (error + unit)" where
  "sum_block cnt iters reference_sum cand v =
     (case trial_loop (\<lambda>iter. trial cnt reference_sum v (cand iter)) [0..<iters] of
        (ts, r) \<Rightarrow>
          (\<lparr>label = v,
            before = (if v = ''CPU'' \<or> v = ''CPU OMP'' then [] else [Compile v]) @ [TimerStart],
            trials = ts,
            after = (case r of Inl e \<Rightarrow> [] | Inr u \<Rightarrow> [Cout v, Cout v])\<rparr>, r))"

text \<open>The blocks of \<open>main\<close> in sequence; an exception skips everything that follows.\<close>

fun run_blocks :: "(string \<Rightarrow> block_run \<times> (error + unit)) \<Rightarrow> string list \<Rightarrow> block_run list \<times> (error + unit)" where
  "run_blocks blk [] = ([], Inr ())"
| "run_blocks blk (v # vs) =
     (case blk v of
        (b, Inl e) \<Rightarrow> ([b], Inl e)
      | (b, Inr u) \<Rightarrow> (case run_blocks blk vs of (bs, r) \<Rightarrow> (b # bs, r)))"

text \<open>
  Between the host blocks and the kernel blocks \<open>main\<close> selects the device, allocates
  \<open>as_gpu\<close> and \<open>result_gpu\<close> and uploads the input array, once.
\<close>

definition device_setup :: block_run where
  "device_setup = \<lparr>label = ''device setup'', before = [WriteN as_gpu], trials = [], after = []\<rparr>"

definition sum_program ::
  "u32 \<Rightarrow> nat \<Rightarrow> (nat \<Rightarrow> nat) \<Rightarrow> (nat \<Rightarrow> nat list list) \<Rightarrow> (string \<Rightarrow> nat \<Rightarrow> u32)
   \<Rightarrow> block_run list \<times> (error + int)" where
  "sum_program cnt iters raw schedule device =
     (case generate raw cnt of
        (xs, reference_sum) \<Rightarrow>
          (let blk = (\<lambda>v. sum_block cnt iters reference_sum
                                (candidate xs cnt schedule device v) v)
           in case run_blocks blk [''CPU'', ''CPU OMP''] of
                (hs, Inl e) \<Rightarrow> (hs, Inl e)
              | (hs, Inr u) \<Rightarrow>
                  (case run_blocks blk sum_kernels of
                     (gs, Inl e) \<Rightarrow> (hs @ device_setup # gs, Inl e)
                   | (gs, Inr u) \<Rightarrow> (hs @ device_setup # gs, Inr 0))))"

definition main_sum ::
  "(nat \<Rightarrow> nat) \<Rightarrow> (nat \<Rightarrow> nat list list) \<Rightarrow> (string \<Rightarrow> nat \<Rightarrow> u32) \<Rightarrow> block_run list \<times> (error + int)" where
  "main_sum = sum_program n benchmarkingIters"

text \<open>
  Vocabulary for the statements about a run: the trials that were started, as pairs of the
  block's label and the trial's index, and, for a list of trials in program order and a
  test that tells whether a trial's candidate agrees with the reference, the trials up to
  and including the first disagreement.
\<close>

definition started :: "block_run list \<Rightarrow> (string \<times> nat) list" where
  "started bs = concat (map (\<lambda>b. map (Pair (label b)) [0..<length (trials b)]) bs)"

definition attempted :: "('a \<Rightarrow> bool) \<Rightarrow> 'a list \<Rightarrow> 'a list" where
  "attempted ok xs = takeWhile ok xs @ take 1 (dropWhile ok xs)"

definition agrees ::
  "u32 list \<Rightarrow> u32 \<Rightarrow> (nat \<Rightarrow> nat list list) \<Rightarrow> (string \<Rightarrow> nat \<Rightarrow> u32) \<Rightarrow> u32
   \<Rightarrow> string \<times> nat \<Rightarrow> bool" where
  "agrees xs cnt schedule device reference_sum p \<longleftrightarrow>
     candidate xs cnt schedule device (fst p) (snd p) = reference_sum"

definition generated_value :: "(nat \<Rightarrow> nat) \<Rightarrow> u32 \<Rightarrow> nat \<Rightarrow> u32" where
  "generated_value raw cnt i =
     word_of_nat (FastRandom_next (raw i) 0 (unat (UINT_MAX div cnt)))"

section \<open>\<open>main_matrix_multiplication.cpp\<close>: the matrix benchmark\<close>

subsection \<open>Floating-point values\<close>

text \<open>
  A \<open>float\<close> or \<open>double\<close> is a finite number, an infinity or a NaN.  An arithmetic
  operation on finite operands delivers the exact result rounded to the format; the rounding
  function \<open>rnd\<close> is a parameter (it may also overflow to an infinity), so nothing below
  depends on a rounding mode or on the precision.  An exact zero is delivered as zero.  The
  two zeros are not told apart: the code below divides only by results of \<open>fabs\<close> and by
  a positive count, and compares with \<open>!=\<close>, \<open><\<close> and \<open>>\<close>, so the sign of a zero
  is never observed.  Every \<open>float\<close> converts to \<open>double\<close> without change.
\<close>

datatype fp = Fin real | PInf | NInf | NaN

definition fround :: "(real \<Rightarrow> fp) \<Rightarrow> real \<Rightarrow> fp" where
  "fround rnd x = (if x = 0 then Fin 0 else rnd x)"

fun fneg :: "fp \<Rightarrow> fp" where
  "fneg (Fin x) = Fin (- x)"
| "fneg PInf = NInf"
| "fneg NInf = PInf"
| "fneg NaN = NaN"

fun fabs :: "fp \<Rightarrow> fp" where
  "fabs (Fin x) = Fin \<bar>x\<bar>"
| "fabs PInf = PInf"
| "fabs NInf = PInf"
| "fabs NaN = NaN"

fun fadd :: "(real \<Rightarrow> fp) \<Rightarrow> fp \<Rightarrow> fp \<Rightarrow> fp" where
  "fadd rnd (Fin x) (Fin y) = fround rnd (x + y)"
| "fadd rnd NaN b = NaN"
| "fadd rnd a NaN = NaN"
| "fadd rnd PInf NInf = NaN"
| "fadd rnd NInf PInf = NaN"
| "fadd rnd PInf b = PInf"
| "fadd rnd NInf b = NInf"
| "fadd rnd (Fin x) b = b"

definition fsub :: "(real \<Rightarrow> fp) \<Rightarrow> fp \<Rightarrow> fp \<Rightarrow> fp" where
  "fsub rnd a b = fadd rnd a (fneg b)"

fun fmul :: "(real \<Rightarrow> fp) \<Rightarrow> fp \<Rightarrow> fp \<Rightarrow> fp" where
  "fmul rnd (Fin x) (Fin y) = fround rnd (x * y)"
| "fmul rnd NaN b = NaN"
| "fmul rnd a NaN = NaN"
| "fmul rnd (Fin x) b = (if x = 0 then NaN else if 0 < x then b else fneg b)"
| "fmul rnd a (Fin y) = (if y = 0 then NaN else if 0 < y then a else fneg a)"
| "fmul rnd PInf b = b"
| "fmul rnd NInf b = fneg b"

fun fdiv :: "(real \<Rightarrow> fp) \<Rightarrow> fp \<Rightarrow> fp \<Rightarrow> fp" where
  "fdiv rnd (Fin x) (Fin y) =
     (if y = 0 then (if x = 0 then NaN else if 0 < x then PInf else NInf)
      else fround rnd (x / y))"
| "fdiv rnd NaN b = NaN"
| "fdiv rnd a NaN = NaN"
| "fdiv rnd (Fin x) b = Fin 0"
| "fdiv rnd a (Fin y) = (if 0 \<le> y then a else fneg a)"
| "fdiv rnd a b = NaN"

text \<open>The comparisons \<open>a < b\<close>, \<open>a > b\<close>, \<open>a <= b\<close> and \<open>a != b\<close>; with a NaN operand the
  first three are false and the last is true.\<close>

fun flt :: "fp \<Rightarrow> fp \<Rightarrow> bool" where
  "flt (Fin x) (Fin y) = (x < y)"
| "flt NaN b = False"
| "flt a NaN = False"
| "flt PInf b = False"
| "flt a PInf = True"
| "flt a NInf = False"
| "flt NInf b = True"

definition fgt :: "fp \<Rightarrow> fp \<Rightarrow> bool" where
  "fgt a b = flt b a"

fun fle :: "fp \<Rightarrow> fp \<Rightarrow> bool" where
  "fle (Fin x) (Fin y) = (x \<le> y)"
| "fle NaN b = False"
| "fle a NaN = False"
| "fle a PInf = True"
| "fle NInf b = True"
| "fle a b = False"

fun fne :: "fp \<Rightarrow> fp \<Rightarrow> bool" where
  "fne NaN b = True"
| "fne a NaN = True"
| "fne a b = (a \<noteq> b)"

text \<open>\<open>std::max(a, b)\<close> is \<open>(a < b) ? b : a\<close>.\<close>

definition std_max :: "fp \<Rightarrow> fp \<Rightarrow> fp" where
  "std_max a b = (if flt a b then b else a)"

fun is_Fin :: "fp \<Rightarrow> bool" where
  "is_Fin (Fin x) = True"
| "is_Fin a = False"

subsection \<open>Constants\<close>

definition M :: u32 where "M = 1024"
definition K :: u32 where "K = 1024"
definition N :: u32 where "N = 1024"

text \<open>
  \<open>const size_t gflops = ((size_t) M * K * N * 2) / (1000 * 1000 * 1000)\<close>: a product
  and a quotient of 64-bit unsigned integers.  The line \<open>gflops / t.lapAvg()\<close> converts
  that integer to \<open>double\<close> and divides it by the mean lap time, which comes from the timer
  (header \<open>libutils/timer.h\<close>, not part of the sources) and is a parameter here.
\<close>

definition gflops_of :: "u32 \<Rightarrow> u32 \<Rightarrow> u32 \<Rightarrow> 64 word" where
  "gflops_of rows inner cols =
     (ucast rows * ucast inner * ucast cols * 2) div (1000 * 1000 * 1000)"

definition gflops :: "64 word" where
  "gflops = gflops_of M K N"

definition reported_gflops :: "(real \<Rightarrow> fp) \<Rightarrow> 64 word \<Rightarrow> fp \<Rightarrow> fp" where
  "reported_gflops rnd g lapAvg = fdiv rnd (fround rnd (real (unat g))) lapAvg"

subsection \<open>Workload and host reference\<close>

text \<open>
  A vector is read through \<open>data()[i]\<close> and \<open>operator[]\<close>, which do not check the index;
  it is modelled by its contents as a function of the index.  \<open>nextf c\<close> is the value
  returned by call number \<open>c\<close> of \<open>FastRandom::nextf\<close> (not part of the sources): the
  first \<open>M * K\<close> calls fill \<open>as\<close>, the next \<open>K * N\<close> fill \<open>bs\<close>.
\<close>

definition as_of :: "(nat \<Rightarrow> fp) \<Rightarrow> nat \<Rightarrow> fp" where
  "as_of nextf i = nextf i"

definition bs_of :: "(nat \<Rightarrow> fp) \<Rightarrow> u32 \<Rightarrow> u32 \<Rightarrow> nat \<Rightarrow> fp" where
  "bs_of nextf rows inner i = nextf (unat (rows * inner) + i)"

text \<open>The innermost loop \<open>sum += as[j * K + k] * bs[k * N + i]\<close> in \<open>float\<close>, from
  \<open>sum = 0.0f\<close>; then the two outer loops storing \<open>cs[j * N + i] = sum\<close>; then the
  \<open>benchmarkingIters\<close> repetitions, starting from \<open>cs = vector(M * N, 0)\<close>.  The
  indices are natural numbers: for the program's dimensions none reaches \<open>2^32\<close>, where
  the \<open>unsigned int\<close> index arithmetic of the source would wrap.\<close>

definition cpu_element ::
  "(real \<Rightarrow> fp) \<Rightarrow> (nat \<Rightarrow> fp) \<Rightarrow> (nat \<Rightarrow> fp) \<Rightarrow> nat \<Rightarrow> nat \<Rightarrow> nat \<Rightarrow> nat \<Rightarrow> fp" where
  "cpu_element rnd as bs inner cols j i =
     fold (\<lambda>k sum. fadd rnd sum (fmul rnd (as (j * inner + k)) (bs (k * cols + i))))
          [0..<inner] (Fin 0)"

definition cpu_pass ::
  "(real \<Rightarrow> fp) \<Rightarrow> (nat \<Rightarrow> fp) \<Rightarrow> (nat \<Rightarrow> fp) \<Rightarrow> nat \<Rightarrow> nat \<Rightarrow> nat \<Rightarrow> (nat \<Rightarrow> fp) \<Rightarrow> nat \<Rightarrow> fp" where
  "cpu_pass rnd as bs rows inner cols cs =
     fold (\<lambda>j cs'. fold (\<lambda>i cs''. cs''(j * cols + i := cpu_element rnd as bs inner cols j i))
                        [0..<cols] cs')
          [0..<rows] cs"

definition cs_cpu_reference ::
  "(real \<Rightarrow> fp) \<Rightarrow> (nat \<Rightarrow> fp) \<Rightarrow> (nat \<Rightarrow> fp) \<Rightarrow> nat \<Rightarrow> nat \<Rightarrow> nat \<Rightarrow> nat \<Rightarrow> nat \<Rightarrow> fp" where
  "cs_cpu_reference rnd as bs rows inner cols iters =
     fold (\<lambda>iter cs. cpu_pass rnd as bs rows inner cols cs) [0..<iters] (\<lambda>i. Fin 0)"

subsection \<open>Validation by average relative difference\<close>

text \<open>
  The loop over \<open>i < M * N\<close> with \<open>a = cs[i]\<close> (candidate) and \<open>b = cs_cpu_reference[i]\<close>:
  \<open>if (a != 0.0 || b != 0.0) diff_sum += fabs(a - b) / std::max(fabs(a), fabs(b))\<close>;
  then \<open>diff_avg = diff_sum / (M * N)\<close> and the test \<open>diff_avg > 0.01\<close>.  The product
  \<open>M * N\<close> is an \<open>unsigned int\<close>, which converts to \<open>double\<close> without rounding.
\<close>

definition nonzero_pair :: "fp \<Rightarrow> fp \<Rightarrow> bool" where
  "nonzero_pair a b \<longleftrightarrow> fne a (Fin 0) \<or> fne b (Fin 0)"

definition divisor :: "fp \<Rightarrow> fp \<Rightarrow> fp" where
  "divisor a b = std_max (fabs a) (fabs b)"

definition diff :: "(real \<Rightarrow> fp) \<Rightarrow> fp \<Rightarrow> fp \<Rightarrow> fp" where
  "diff rnd a b = fdiv rnd (fabs (fsub rnd a b)) (divisor a b)"

definition diff_step :: "(real \<Rightarrow> fp) \<Rightarrow> (nat \<Rightarrow> fp) \<Rightarrow> (nat \<Rightarrow> fp) \<Rightarrow> nat \<Rightarrow> fp \<Rightarrow> fp" where
  "diff_step rnd cs reference i acc =
     (let a = cs i; b = reference i
      in if nonzero_pair a b then fadd rnd acc (diff rnd a b) else acc)"

definition diff_sum :: "(real \<Rightarrow> fp) \<Rightarrow> u32 \<Rightarrow> u32 \<Rightarrow> (nat \<Rightarrow> fp) \<Rightarrow> (nat \<Rightarrow> fp) \<Rightarrow> fp" where
  "diff_sum rnd rows cols cs reference =
     fold (diff_step rnd cs reference) [0..<unat (rows * cols)] (Fin 0)"

definition diff_avg :: "(real \<Rightarrow> fp) \<Rightarrow> u32 \<Rightarrow> u32 \<Rightarrow> (nat \<Rightarrow> fp) \<Rightarrow> (nat \<Rightarrow> fp) \<Rightarrow> fp" where
  "diff_avg rnd rows cols cs reference =
     fdiv rnd (diff_sum rnd rows cols cs reference) (Fin (real (unat (rows * cols))))"

text \<open>The literal \<open>0.01\<close> is the \<open>double\<close> nearest to one hundredth,
  \<open>0x1.47ae147ae147bp-7\<close>.\<close>

definition tolerance :: fp where
  "tolerance = Fin (5764607523034235 / 2 ^ 59)"

definition too_big :: "(real \<Rightarrow> fp) \<Rightarrow> u32 \<Rightarrow> u32 \<Rightarrow> (nat \<Rightarrow> fp) \<Rightarrow> (nat \<Rightarrow> fp) \<Rightarrow> bool" where
  "too_big rnd rows cols cs reference \<longleftrightarrow>
     fgt (diff_avg rnd rows cols cs reference) tolerance"

subsection \<open>The three kernels\<close>

definition mm_kernels :: "string list" where
  "mm_kernels = [''matrix_multiplication_naive'', ''matrix_multiplication_block'',
                 ''matrix_multiplication_many'']"

text \<open>Work-group shape \<open>16 x 16\<close> over \<open>N x M\<close>; for the last kernel
  \<open>16 x (16 / 4)\<close> over \<open>N x (M / 4)\<close>.\<close>

definition mm_work_size :: "string \<Rightarrow> u32 \<Rightarrow> u32 \<Rightarrow> WorkSize" where
  "mm_work_size kernel_name rows cols =
     (if kernel_name = ''matrix_multiplication_many''
      then WorkSize2 16 (16 div 4) cols (rows div 4)
      else WorkSize2 16 16 cols rows)"

text \<open>
  The trial loop of a kernel block: each iteration launches and ends the lap.  The device is
  a black box: \<open>device kernel_name iter\<close> is the contents of \<open>cs_gpu\<close> after the launch
  of trial \<open>iter\<close> of that kernel.  The loop returns the contents of \<open>cs_gpu\<close> at its end.
\<close>

fun exec_loop ::
  "(string \<Rightarrow> nat \<Rightarrow> nat \<Rightarrow> fp) \<Rightarrow> string \<Rightarrow> WorkSize \<Rightarrow> nat list \<Rightarrow> (nat \<Rightarrow> fp)
   \<Rightarrow> event list list \<times> (nat \<Rightarrow> fp)" where
  "exec_loop device v ws [] dev_cs = ([], dev_cs)"
| "exec_loop device v ws (iter # iters) dev_cs =
     (case exec_loop device v ws iters (device v iter) of
        (ts, dev_cs') \<Rightarrow> ([Exec v ws, NextLap] # ts, dev_cs'))"

text \<open>
  One kernel block: upload both inputs, compile, run the trials, print the statistics,
  download \<open>cs_gpu\<close> into \<open>cs\<close>, validate; \<open>return 1\<close> after the diagnostic when the
  average is too big.  The result is the record of the block, whether it returned 1, and
  the contents of \<open>cs_gpu\<close>.
\<close>

definition mm_block ::
  "(real \<Rightarrow> fp) \<Rightarrow> u32 \<Rightarrow> u32 \<Rightarrow> nat \<Rightarrow> (nat \<Rightarrow> fp) \<Rightarrow> (string \<Rightarrow> nat \<Rightarrow> nat \<Rightarrow> fp)
   \<Rightarrow> (nat \<Rightarrow> fp) \<Rightarrow> string \<Rightarrow> block_run \<times> bool \<times> (nat \<Rightarrow> fp)" where
  "mm_block rnd rows cols iters reference device dev_cs v =
     (case exec_loop device v (mm_work_size v rows cols) [0..<iters] dev_cs of
        (ts, dev_cs') \<Rightarrow>
          (let cs = dev_cs';
               failed = too_big rnd rows cols cs reference
           in (\<lparr>label = v,
                before = [WriteN as_gpu, WriteN bs_gpu, Compile v, TimerStart],
                trials = ts,
                after = [Cout v, Cout v, ReadN cs_gpu, Check v, Cout ''Average difference: '']
                        @ (if failed then [Cerr ''Too big difference!''] else [])\<rparr>,
               failed, dev_cs')))"

text \<open>The kernel blocks in sequence; the first \<open>return 1\<close> ends \<open>main\<close>, and the end of
  \<open>main\<close> is \<open>return 0\<close>.\<close>

fun run_variants ::
  "((nat \<Rightarrow> fp) \<Rightarrow> string \<Rightarrow> block_run \<times> bool \<times> (nat \<Rightarrow> fp)) \<Rightarrow> string list \<Rightarrow> (nat \<Rightarrow> fp)
   \<Rightarrow> block_run list \<times> int" where
  "run_variants blk [] dev_cs = ([], 0)"
| "run_variants blk (v # vs) dev_cs =
     (case blk dev_cs v of
        (b, failed, dev_cs') \<Rightarrow>
          if failed then ([b], 1)
          else (case run_variants blk vs dev_cs' of (bs, status) \<Rightarrow> (b # bs, status)))"

definition data_generated :: block_run where
  "data_generated = \<lparr>label = ''Data generated'', before = [Cout ''Data generated''],
                      trials = [], after = []\<rparr>"

definition cpu_block :: "nat \<Rightarrow> block_run" where
  "cpu_block iters = \<lparr>label = ''CPU'', before = [TimerStart],
                        trials = replicate iters [NextLap], after = [Cout ''CPU'', Cout ''CPU'']\<rparr>"

text \<open>
  The whole program.  \<open>rnd32\<close> rounds to \<open>float\<close> (host reference), \<open>rnd64\<close> to
  \<open>double\<close> (validation); \<open>dev_cs\<close> is what \<open>cs_gpu\<close> holds after its allocation.
\<close>

definition mm_program ::
  "(real \<Rightarrow> fp) \<Rightarrow> (real \<Rightarrow> fp) \<Rightarrow> u32 \<Rightarrow> u32 \<Rightarrow> u32 \<Rightarrow> nat \<Rightarrow> (nat \<Rightarrow> fp) \<Rightarrow> (nat \<Rightarrow> fp)
   \<Rightarrow> (string \<Rightarrow> nat \<Rightarrow> nat \<Rightarrow> fp) \<Rightarrow> block_run list \<times> int" where
  "mm_program rnd32 rnd64 rows inner cols iters nextf dev_cs device =
     (let reference = cs_cpu_reference rnd32 (as_of nextf) (bs_of nextf rows inner)
                        (unat rows) (unat inner) (unat cols) iters
      in case run_variants (mm_block rnd64 rows cols iters reference device) mm_kernels dev_cs of
           (gs, status) \<Rightarrow> (data_generated # cpu_block iters # gs, status))"

definition main_matrix_multiplication ::
  "(real \<Rightarrow> fp) \<Rightarrow> (real \<Rightarrow> fp) \<Rightarrow> (nat \<Rightarrow> fp) \<Rightarrow> (nat \<Rightarrow> fp) \<Rightarrow> (string \<Rightarrow> nat \<Rightarrow> nat \<Rightarrow> fp)
   \<Rightarrow> block_run list \<times> int" where
  "main_matrix_multiplication rnd32 rnd64 = mm_program rnd32 rnd64 M K N benchmarkingIters"

section \<open>Vocabulary for the statements about launches and validation\<close>

text \<open>A launch geometry tiles its global extent when every global size is a multiple of
  the group size of the same dimension.\<close>

fun tiles :: "WorkSize \<Rightarrow> bool" where
  "tiles (WorkSize1 gx wx) \<longleftrightarrow> unat wx mod unat gx = 0"
| "tiles (WorkSize2 gx gy wx wy) \<longleftrightarrow> unat wx mod unat gx = 0 \<and> unat wy mod unat gy = 0"

text \<open>The contents of \<open>cs_gpu\<close> that the validation of a kernel block reads: what the
  last launch of the block left there (what was there before, when the block has no trial).\<close>

definition last_output ::
  "(string \<Rightarrow> nat \<Rightarrow> nat \<Rightarrow> fp) \<Rightarrow> (nat \<Rightarrow> fp) \<Rightarrow> nat \<Rightarrow> string \<Rightarrow> nat \<Rightarrow> fp" where
  "last_output device dev_cs iters v = (if iters = 0 then dev_cs else device v (iters - 1))"

text \<open>The throughput in the words of the spec: the operation count \<open>2 M K N\<close>, divided
  by \<open>10^9\<close>, divided by the mean latency.\<close>

definition spec_throughput :: "u32 \<Rightarrow> u32 \<Rightarrow> u32 \<Rightarrow> real \<Rightarrow> real" where
  "spec_throughput rows inner cols mean =
     2 * real (unat rows) * real (unat inner) * real (unat cols) / 10 ^ 9 / mean"

text \<open>
  The trial discipline in the words of the spec: within one trial, every launch comes after
  an upload of an input buffer of the workload and before a download of the output buffer.
\<close>

definition uploads :: "event list" where
  "uploads = [WriteN as_gpu, WriteN bs_gpu]"

definition downloads :: "event list" where
  "downloads = [ReadN cs_gpu, ReadN result_gpu]"

definition bracketed :: "event list \<Rightarrow> bool" where
  "bracketed t \<longleftrightarrow>
     (\<forall>i<length t. is_Exec (t ! i) \<longrightarrow>
        (\<exists>e\<in>set (take i t). e \<in> set uploads) \<and> (\<exists>e\<in>set (drop (Suc i) t). e \<in> set downloads))"

text \<open>Inputs for concrete runs: a generator that returns zeros, and devices that leave a
  constant in the output buffer.\<close>

definition zeros :: "nat \<Rightarrow> fp" where
  "zeros i = Fin 0"

definition device_ones :: "string \<Rightarrow> nat \<Rightarrow> nat \<Rightarrow> fp" where
  "device_ones v iter i = Fin 1"

definition device_zeros :: "string \<Rightarrow> nat \<Rightarrow> nat \<Rightarrow> fp" where
  "device_zeros v iter i = Fin 0"

definition raw_zeros :: "nat \<Rightarrow> nat" where
  "raw_zeros i = 0"

definition one_thread :: "nat \<Rightarrow> nat list list" where
  "one_thread iter = [[0..<unat n]]"

definition device_sum_zero :: "string \<Rightarrow> nat \<Rightarrow> u32" where
  "device_sum_zero v iter = 0"

text \<open>The actions of a kernel block of the matrix program after its trial loop.\<close>

definition mm_after :: "bool \<Rightarrow> string \<Rightarrow> event list" where
  "mm_after failed v =
     [Cout v, Cout v, ReadN cs_gpu, Check v, Cout ''Average difference: '']
     @ (if failed then [Cerr ''Too big difference!''] else [])"

text \<open>A block of the reduction program in which every trial's candidate agreed with the
  reference sum.\<close>

definition complete_block :: "u32 \<Rightarrow> nat \<Rightarrow> string \<Rightarrow> block_run" where
  "complete_block cnt iters v =
     \<lparr>label = v,
      before = (if v = ''CPU'' \<or> v = ''CPU OMP'' then [] else [Compile v]) @ [TimerStart],
      trials = replicate iters (launch v cnt @ [Check v, NextLap]),
      after = [Cout v, Cout v]\<rparr>"

text \<open>
  The same validation with a flag.  A division delivers its quotient together with the
  information whether its divisor was zero; the loop and the average collect these flags.
  The quotients are those of the validation above.
\<close>

definition checked_div :: "(real \<Rightarrow> fp) \<Rightarrow> fp \<Rightarrow> fp \<Rightarrow> fp \<times> bool" where
  "checked_div rnd x y = (fdiv rnd x y, y = Fin 0)"

definition diff_checked :: "(real \<Rightarrow> fp) \<Rightarrow> fp \<Rightarrow> fp \<Rightarrow> fp \<times> bool" where
  "diff_checked rnd a b = checked_div rnd (fabs (fsub rnd a b)) (std_max (fabs a) (fabs b))"

definition diff_step_checked ::
  "(real \<Rightarrow> fp) \<Rightarrow> (nat \<Rightarrow> fp) \<Rightarrow> (nat \<Rightarrow> fp) \<Rightarrow> nat \<Rightarrow> fp \<times> bool \<Rightarrow> fp \<times> bool" where
  "diff_step_checked rnd cs reference i st =
     (let a = cs i; b = reference i
      in if nonzero_pair a b
         then (case diff_checked rnd a b of (q, z) \<Rightarrow> (fadd rnd (fst st) q, snd st \<or> z))
         else st)"

definition diff_avg_checked ::
  "(real \<Rightarrow> fp) \<Rightarrow> u32 \<Rightarrow> u32 \<Rightarrow> (nat \<Rightarrow> fp) \<Rightarrow> (nat \<Rightarrow> fp) \<Rightarrow> fp \<times> bool" where
  "diff_avg_checked rnd rows cols cs reference =
     (case fold (diff_step_checked rnd cs reference) [0..<unat (rows * cols)] (Fin 0, False) of
        (s, z) \<Rightarrow>
          (case checked_div rnd s (Fin (real (unat (rows * cols)))) of
             (avg, z') \<Rightarrow> (avg, z \<or> z')))"

text \<open>More inputs for concrete runs: the reference \<open>0, 1, 2, ...\<close>, and arrays of NaNs
  and of infinities.\<close>

definition ramp :: "nat \<Rightarrow> fp" where
  "ramp i = Fin (real i)"

definition nans :: "nat \<Rightarrow> fp" where
  "nans i = NaN"

definition infinities :: "nat \<Rightarrow> fp" where
  "infinities i = PInf"

section \<open>Properties of the reduction benchmark\<close>

subsection \<open>Sums\<close>



lemma fold_plus_sum_list:
  fixes a :: "'a::comm_monoid_add"
  shows "fold (\<lambda>i s. s + f i) is a = a + sum_list (map f is)"
  by (induction "is" arbitrary: a) (simp_all add: add.assoc)

lemma sequential_sum_eq: "sequential_sum xs cnt = (\<Sum>i\<leftarrow>[0..<cnt]. xs ! i)"
  by (simp add: sequential_sum_def fold_plus_sum_list)

lemma thread_sum_eq: "thread_sum xs its = (\<Sum>i\<leftarrow>its. xs ! i)"
  by (simp add: thread_sum_def fold_plus_sum_list)

lemma omp_sum_eq: "omp_sum xs schedule = (\<Sum>i\<leftarrow>concat schedule. xs ! i)"
proof -
  have "omp_sum xs schedule = (\<Sum>its\<leftarrow>schedule. thread_sum xs its)"
    by (simp add: omp_sum_def fold_plus_sum_list)
  also have "\<dots> = (\<Sum>i\<leftarrow>concat schedule. xs ! i)"
    by (induction schedule) (simp_all add: thread_sum_eq)
  finally show ?thesis .
qed

lemma sum_list_mset_cong:
  fixes f :: "nat \<Rightarrow> 'a::comm_monoid_add"
  assumes "mset is = mset js"
  shows "sum_list (map f is) = sum_list (map f js)"
proof -
  have "sum_list (map f is) = sum_mset (image_mset f (mset is))"
    by (simp add: sum_mset_sum_list [symmetric])
  also have "\<dots> = sum_mset (image_mset f (mset js))"
    using assms by simp
  also have "\<dots> = sum_list (map f js)"
    by (simp add: sum_mset_sum_list [symmetric])
  finally show ?thesis .
qed

lemma omp_schedule_mset: "omp_schedule cnt schedule \<Longrightarrow> mset (concat schedule) = mset [0..<cnt]"
  unfolding omp_schedule_def by (metis mset_sort)

lemma omp_sum_sequential:
  assumes "omp_schedule cnt schedule"
  shows "omp_sum xs schedule = sequential_sum xs cnt"
  using sum_list_mset_cong [OF omp_schedule_mset [OF assms], of "\<lambda>i. xs ! i"]
  by (simp add: omp_sum_eq sequential_sum_eq)

lemma concat_contiguous_chunks:
  "concat (contiguous_chunks start lens) = [start..<start + sum_list lens]"
proof (induction lens arbitrary: start)
  case Nil
  show ?case by simp
next
  case (Cons len lens)
  have "[start..<start + len] @ [start + len..<start + len + sum_list lens]
        = [start..<start + len + sum_list lens]"
    by (metis le_add1 upt_add_eq_append)
  with Cons show ?case by (simp add: add.assoc)
qed

lemma contiguous_chunks_schedule:
  "omp_schedule (sum_list lens) (contiguous_chunks 0 lens)"
  by (simp add: omp_schedule_def concat_contiguous_chunks sorted_sort_id)



lemma generate_prefix:
  "k \<le> m \<Longrightarrow>
   fold (generate_step raw cnt) [0..<k] (replicate m 0, 0) =
     (map (generated_value raw cnt) [0..<k] @ replicate (m - k) 0,
      sum_list (map (generated_value raw cnt) [0..<k]))"
proof (induction k)
  case 0
  show ?case by simp
next
  case (Suc k)
  then have k: "k < m" by simp
  then have rep: "replicate (m - k) (0::u32) = 0 # replicate (m - Suc k) 0"
    by (metis Suc_diff_Suc replicate_Suc)
  have len: "length (map (generated_value raw cnt) [0..<k]) = k" by simp
  have upd: "(map (generated_value raw cnt) [0..<k] @ 0 # replicate (m - Suc k) 0)[k := v]
             = map (generated_value raw cnt) [0..<k] @ v # replicate (m - Suc k) 0" for v
    using len by (metis list_update_length)
  from Suc k show ?case
    by (simp add: generate_step_def rep upd generated_value_def [symmetric] Let_def)
qed

lemma generate_eq:
  "generate raw cnt =
     (map (generated_value raw cnt) [0..<unat cnt],
      sum_list (map (generated_value raw cnt) [0..<unat cnt]))"
  using generate_prefix [of "unat cnt" "unat cnt" raw cnt] by (simp add: generate_def)

lemma unat_generated_value:
  "unat (generated_value raw cnt i) = raw i mod (unat (UINT_MAX div cnt) + 1)"
proof -
  have "raw i mod (unat (UINT_MAX div cnt) + 1) \<le> unat (UINT_MAX div cnt)"
    by (metis Suc_eq_plus1 less_Suc_eq_le mod_less_divisor zero_less_Suc)
  also have "\<dots> < 2 ^ 32"
    using unsigned_less [of "UINT_MAX div cnt"] by simp
  finally show ?thesis
    by (simp add: generated_value_def FastRandom_next_def unat_of_nat)
qed

lemma generated_value_le:
  "unat (generated_value raw cnt i) \<le> unat UINT_MAX div unat cnt"
proof -
  have "raw i mod (unat (UINT_MAX div cnt) + 1) \<le> unat (UINT_MAX div cnt)"
    by (metis Suc_eq_plus1 less_Suc_eq_le mod_less_divisor zero_less_Suc)
  then show ?thesis
    by (simp add: unat_generated_value unat_div)
qed

lemma sum_list_bounded:
  fixes xs :: "nat list"
  assumes "\<forall>x\<in>set xs. x \<le> b"
  shows "sum_list xs \<le> length xs * b"
  using assms by (induction xs) auto

lemma unat_sum_list_exact:
  fixes xs :: "u32 list"
  assumes "sum_list (map unat xs) < 2 ^ 32"
  shows "unat (sum_list xs) = sum_list (map unat xs)"
  using assms
proof (induction xs)
  case Nil
  show ?case by simp
next
  case (Cons x xs)
  then have "sum_list (map unat xs) < 2 ^ 32" by simp
  with Cons have "unat (sum_list xs) = sum_list (map unat xs)" by simp
  with Cons.prems show ?case
    by (simp add: unat_word_ariths)
qed

lemma bounded_values_no_overflow:
  fixes xs :: "u32 list"
  assumes "0 < length xs" and "\<forall>x\<in>set xs. unat x \<le> unat UINT_MAX div length xs"
  shows "sum_list (map unat xs) \<le> unat UINT_MAX"
proof -
  have "sum_list (map unat xs) \<le> length (map unat xs) * (unat UINT_MAX div length xs)"
    by (rule sum_list_bounded) (use assms in auto)
  also have "\<dots> \<le> unat UINT_MAX"
    by simp
  finally show ?thesis .
qed

lemma unat_UINT_MAX: "unat UINT_MAX = 4294967295"
  by (simp add: UINT_MAX_def)

lemma nth_sum_list: "(\<Sum>i\<leftarrow>[0..<length xs]. xs ! i) = sum_list (xs :: u32 list)"
  by (simp add: map_nth)



lemma attempted_Nil: "attempted ok [] = []"
  by (simp add: attempted_def)

lemma attempted_Cons:
  "attempted ok (x # xs) = (if ok x then x # attempted ok xs else [x])"
  by (simp add: attempted_def)

lemma attempted_append:
  "attempted ok (xs @ ys) = (if list_all ok xs then xs @ attempted ok ys else attempted ok xs)"
  by (induction xs) (simp_all add: attempted_Nil attempted_Cons)

lemma attempted_map:
  "attempted ok (map f xs) = map f (attempted (\<lambda>x. ok (f x)) xs)"
  by (induction xs) (simp_all add: attempted_Nil attempted_Cons)

lemma attempted_take:
  "attempted ok xs = take (Suc (length (takeWhile ok xs))) xs"
  by (induction xs) (simp_all add: attempted_Nil attempted_Cons)

lemma attempted_upt:
  "attempted ok [0..<m] = [0..<length (attempted ok [0..<m])]"
proof -
  have "take k [0..<m] = [0..<min k m]" for k
    by (cases "k \<le> m") (simp_all add: min_def take_upt)
  then have "attempted ok [0..<m] = [0..<min (Suc (length (takeWhile ok [0..<m]))) m]"
    by (subst attempted_take) simp
  then show ?thesis by (metis length_upt minus_nat.diff_0)
qed

lemma trial_result:
  "snd (trial cnt reference_sum v result) =
     (if result = reference_sum then Inr () else Inl (RuntimeError (message v)))"
  by (auto simp add: trial_def raiseFail_def)

lemma trial_loop_length:
  "length (fst (trial_loop (\<lambda>iter. trial cnt reference_sum v (cand iter)) iters)) =
     length (attempted (\<lambda>iter. cand iter = reference_sum) iters)"
proof (induction iters)
  case Nil
  show ?case by (simp add: attempted_Nil)
next
  case (Cons iter iters)
  obtain es r where t: "trial cnt reference_sum v (cand iter) = (es, r)"
    by (cases "trial cnt reference_sum v (cand iter)")
  with trial_result [of cnt reference_sum v "cand iter"]
  have r: "r = (if cand iter = reference_sum then Inr () else Inl (RuntimeError (message v)))"
    by simp
  show ?case
  proof (cases "cand iter = reference_sum")
    case True
    with t r Cons show ?thesis
      by (auto simp add: attempted_Cons split: prod.splits)
  next
    case False
    with t r show ?thesis
      by (simp add: attempted_Cons)
  qed
qed

lemma trial_loop_result:
  "snd (trial_loop (\<lambda>iter. trial cnt reference_sum v (cand iter)) iters) =
     (if list_all (\<lambda>iter. cand iter = reference_sum) iters then Inr ()
      else Inl (RuntimeError (message v)))"
proof (induction iters)
  case Nil
  show ?case by simp
next
  case (Cons iter iters)
  obtain es r where t: "trial cnt reference_sum v (cand iter) = (es, r)"
    by (cases "trial cnt reference_sum v (cand iter)")
  with trial_result [of cnt reference_sum v "cand iter"]
  have r: "r = (if cand iter = reference_sum then Inr () else Inl (RuntimeError (message v)))"
    by simp
  show ?case
  proof (cases "cand iter = reference_sum")
    case True
    with t r Cons show ?thesis
      by (auto split: prod.splits)
  next
    case False
    with t r show ?thesis
      by simp
  qed
qed

lemma attempted_all: "list_all ok xs \<Longrightarrow> attempted ok xs = xs"
  by (induction xs) (simp_all add: attempted_Nil attempted_Cons)

lemma sum_block_label: "label (fst (sum_block cnt iters reference_sum cand v)) = v"
  by (simp add: sum_block_def case_prod_beta)

lemma sum_block_trials:
  "trials (fst (sum_block cnt iters reference_sum cand v)) =
     fst (trial_loop (\<lambda>iter. trial cnt reference_sum v (cand iter)) [0..<iters])"
  by (simp add: sum_block_def case_prod_beta)

lemma sum_block_result:
  "snd (sum_block cnt iters reference_sum cand v) =
     (if list_all (\<lambda>iter. cand iter = reference_sum) [0..<iters] then Inr ()
      else Inl (RuntimeError (message v)))"
  by (simp add: sum_block_def case_prod_beta trial_loop_result)

lemma started_sum_block:
  "started [fst (sum_block cnt iters reference_sum cand v)] =
     map (Pair v) (attempted (\<lambda>iter. cand iter = reference_sum) [0..<iters])"
proof -
  have "[0..<length (attempted (\<lambda>iter. cand iter = reference_sum) [0..<iters])]
        = attempted (\<lambda>iter. cand iter = reference_sum) [0..<iters]"
    by (rule attempted_upt [symmetric])
  then show ?thesis
    by (simp add: started_def sum_block_label sum_block_trials trial_loop_length)
qed

lemma started_Cons: "started (b # bs) = started [b] @ started bs"
  by (simp add: started_def)

lemma run_blocks_sum:
  fixes cand :: "string \<Rightarrow> nat \<Rightarrow> u32"
  assumes blk_def: "blk = (\<lambda>v. sum_block cnt iters reference_sum (cand v) v)"
    and ok_def: "ok = (\<lambda>p. cand (fst p) (snd p) = reference_sum)"
  shows "started (fst (run_blocks blk vs)) = attempted ok (List.product vs [0..<iters])
       \<and> (list_all ok (List.product vs [0..<iters]) \<longrightarrow> snd (run_blocks blk vs) = Inr ())
       \<and> (\<not> list_all ok (List.product vs [0..<iters]) \<longrightarrow>
            (\<exists>v\<in>set vs. snd (run_blocks blk vs) = Inl (RuntimeError (message v))))"
proof (induction vs)
  case Nil
  show ?case by (simp add: started_def attempted_Nil)
next
  case (Cons v vs)
  obtain b r where bv: "blk v = (b, r)" by (cases "blk v")
  have b: "b = fst (sum_block cnt iters reference_sum (cand v) v)"
    and r: "r = snd (sum_block cnt iters reference_sum (cand v) v)"
    using bv by (simp_all add: blk_def)
  have sb: "started [b] = map (Pair v) (attempted (\<lambda>iter. cand v iter = reference_sum) [0..<iters])"
    unfolding b by (rule started_sum_block)
  have att: "attempted ok (map (Pair v) [0..<iters])
             = map (Pair v) (attempted (\<lambda>iter. cand v iter = reference_sum) [0..<iters])"
    by (simp add: attempted_map ok_def)
  have all: "list_all ok (map (Pair v) [0..<iters])
             = list_all (\<lambda>iter. cand v iter = reference_sum) [0..<iters]"
    by (simp add: list_all_iff ok_def)
  have prod: "List.product (v # vs) [0..<iters] = map (Pair v) [0..<iters] @ List.product vs [0..<iters]"
    by simp
  show ?case
  proof (cases "list_all (\<lambda>iter. cand v iter = reference_sum) [0..<iters]")
    case True
    then have rr: "r = Inr ()" by (simp add: r sum_block_result)
    have full: "attempted (\<lambda>iter. cand v iter = reference_sum) [0..<iters] = [0..<iters]"
      using True by (rule attempted_all)
    obtain bs r' where rest: "run_blocks blk vs = (bs, r')" by (cases "run_blocks blk vs")
    have run: "run_blocks blk (v # vs) = (b # bs, r')"
      using bv rr rest by simp
    have st: "started (b # bs) = map (Pair v) [0..<iters] @ started bs"
      using started_Cons [of b bs] sb full by simp
    have okv: "list_all ok (map (Pair v) [0..<iters])"
      using all True by simp
    have att': "attempted ok (List.product (v # vs) [0..<iters])
                = map (Pair v) [0..<iters] @ attempted ok (List.product vs [0..<iters])"
      unfolding prod using okv by (simp add: attempted_append)
    have all': "list_all ok (List.product (v # vs) [0..<iters])
                = list_all ok (List.product vs [0..<iters])"
      unfolding prod using okv by simp
    from Cons rest have ih1: "started bs = attempted ok (List.product vs [0..<iters])"
      and ih2: "list_all ok (List.product vs [0..<iters]) \<longrightarrow> r' = Inr ()"
      and ih3: "\<not> list_all ok (List.product vs [0..<iters]) \<longrightarrow>
                  (\<exists>v\<in>set vs. r' = Inl (RuntimeError (message v)))"
      by simp_all
    show ?thesis
      unfolding run all' att' fst_conv snd_conv st
      using ih1 ih2 ih3 by auto
  next
    case False
    then have rr: "r = Inl (RuntimeError (message v))" by (simp add: r sum_block_result)
    have run: "run_blocks blk (v # vs) = ([b], r)"
      using bv rr by simp
    have nokv: "\<not> list_all ok (map (Pair v) [0..<iters])"
      using all False by simp
    have att': "attempted ok (List.product (v # vs) [0..<iters])
                = map (Pair v) (attempted (\<lambda>iter. cand v iter = reference_sum) [0..<iters])"
      unfolding prod using nokv att by (simp add: attempted_append)
    have all': "\<not> list_all ok (List.product (v # vs) [0..<iters])"
      unfolding prod using nokv by simp
    show ?thesis
      unfolding run att' fst_conv snd_conv
      using all' sb rr by simp
  qed
qed


subsection \<open>The failing trial is the last action of the run\<close>

lemma trial_loop_Inl:
  "snd (trial_loop body iters) = Inl e \<Longrightarrow>
   fst (trial_loop body iters) \<noteq> [] \<and>
   (\<exists>iter\<in>set iters. last (fst (trial_loop body iters)) = fst (body iter) \<and> snd (body iter) = Inl e)"
proof (induction iters)
  case Nil
  then show ?case by simp
next
  case (Cons iter iters)
  obtain es r where b: "body iter = (es, r)" by (cases "body iter")
  show ?case
  proof (cases r)
    case (Inl e')
    with b Cons.prems show ?thesis by simp
  next
    case (Inr u)
    obtain ts r' where rest: "trial_loop body iters = (ts, r')" by (cases "trial_loop body iters")
    with b Inr Cons.prems have "r' = Inl e" by simp
    with Cons.IH rest have "ts \<noteq> [] \<and> (\<exists>i\<in>set iters. last ts = fst (body i) \<and> snd (body i) = Inl e)"
      by simp
    with b Inr rest show ?thesis by auto
  qed
qed

lemma trial_Inl:
  "snd (trial cnt reference_sum v result) = Inl e \<Longrightarrow>
   e = RuntimeError (message v) \<and>
   fst (trial cnt reference_sum v result) = launch v cnt @ [Check v, Cerr (message v)]"
  by (cases "result = reference_sum") (simp_all add: trial_def raiseFail_def)

lemma sum_block_Inl:
  assumes "snd (sum_block cnt iters reference_sum cand v) = Inl e"
  shows "e = RuntimeError (message v)
       \<and> last (events_of (fst (sum_block cnt iters reference_sum cand v))) = Cerr (message v)
       \<and> trials (fst (sum_block cnt iters reference_sum cand v)) \<noteq> []
       \<and> NextLap \<notin> set (last (trials (fst (sum_block cnt iters reference_sum cand v))))"
proof -
  let ?loop = "trial_loop (\<lambda>iter. trial cnt reference_sum v (cand iter)) [0..<iters]"
  have r: "snd ?loop = Inl e"
    using assms by (simp add: sum_block_def case_prod_beta)
  from trial_loop_Inl [OF r] obtain iter where
    ne: "fst ?loop \<noteq> []" and
    l: "last (fst ?loop) = fst (trial cnt reference_sum v (cand iter))" and
    f: "snd (trial cnt reference_sum v (cand iter)) = Inl e"
    by auto
  from trial_Inl [OF f] have e: "e = RuntimeError (message v)"
    and ev: "fst (trial cnt reference_sum v (cand iter)) = launch v cnt @ [Check v, Cerr (message v)]"
    by simp_all
  have lastt: "last (fst ?loop) = launch v cnt @ [Check v, Cerr (message v)]"
    using l ev by simp
  have "concat (fst ?loop) = concat (butlast (fst ?loop)) @ last (fst ?loop)"
    using ne by (metis append_butlast_last_id concat_append concat.simps(1,2) append_Nil2)
  then have "last (concat (fst ?loop)) = Cerr (message v)"
    using lastt by simp
  moreover have "concat (fst ?loop) \<noteq> []"
    using ne lastt by (metis Nil_is_append_conv concat_eq_Nil_conv last_in_set list.discI)
  ultimately have "last (events_of (fst (sum_block cnt iters reference_sum cand v))) = Cerr (message v)"
    using r by (simp add: events_of_def sum_block_def case_prod_beta)
  moreover have "NextLap \<notin> set (launch v cnt @ [Check v, Cerr (message v)])"
    by (simp add: launch_def)
  ultimately show ?thesis
    using e ne lastt by (simp add: sum_block_trials)
qed

lemma run_blocks_Inl:
  "snd (run_blocks blk vs) = Inl e \<Longrightarrow>
   fst (run_blocks blk vs) \<noteq> [] \<and>
   (\<exists>v\<in>set vs. last (fst (run_blocks blk vs)) = fst (blk v) \<and> snd (blk v) = Inl e)"
proof (induction vs)
  case Nil
  then show ?case by simp
next
  case (Cons v vs)
  obtain b r where b: "blk v = (b, r)" by (cases "blk v")
  show ?case
  proof (cases r)
    case (Inl e')
    with b Cons.prems show ?thesis by simp
  next
    case (Inr u)
    obtain bs r' where rest: "run_blocks blk vs = (bs, r')" by (cases "run_blocks blk vs")
    with b Inr Cons.prems have "r' = Inl e" by simp
    with Cons.IH rest have "bs \<noteq> [] \<and> (\<exists>w\<in>set vs. last bs = fst (blk w) \<and> snd (blk w) = Inl e)"
      by simp
    with b Inr rest show ?thesis by auto
  qed
qed

lemma last_trace:
  "bs \<noteq> [] \<Longrightarrow> events_of (last bs) \<noteq> [] \<Longrightarrow> last (trace bs) = last (events_of (last bs))"
proof -
  assume ne: "bs \<noteq> []" and ev: "events_of (last bs) \<noteq> []"
  have "trace bs = trace (butlast bs) @ events_of (last bs)"
    using ne by (metis (no_types) append_Nil2 append_butlast_last_id concat.simps(1,2) concat_append
        list.simps(8,9) map_append trace_def)
  with ev show ?thesis by simp
qed

lemma run_blocks_sum_Inl:
  assumes "snd (run_blocks (\<lambda>v. sum_block cnt iters reference_sum (cand v) v) vs) = Inl e"
  shows "\<exists>v\<in>set vs. e = RuntimeError (message v)
       \<and> last (trace (pre @ fst (run_blocks (\<lambda>v. sum_block cnt iters reference_sum (cand v) v) vs)))
           = Cerr (message v)
       \<and> NextLap \<notin> set (last (trials (last
             (pre @ fst (run_blocks (\<lambda>v. sum_block cnt iters reference_sum (cand v) v) vs)))))"
proof -
  let ?blk = "\<lambda>v. sum_block cnt iters reference_sum (cand v) v"
  from run_blocks_Inl [OF assms] obtain v where v: "v \<in> set vs"
    and ne: "fst (run_blocks ?blk vs) \<noteq> []"
    and l: "last (fst (run_blocks ?blk vs)) = fst (?blk v)"
    and f: "snd (?blk v) = Inl e"
    by auto
  from sum_block_Inl [OF f] have e: "e = RuntimeError (message v)"
    and c: "last (events_of (fst (?blk v))) = Cerr (message v)"
    and t: "trials (fst (?blk v)) \<noteq> []"
    and nl: "NextLap \<notin> set (last (trials (fst (?blk v))))"
    by simp_all
  have lp: "last (pre @ fst (run_blocks ?blk vs)) = fst (?blk v)"
    using ne l by simp
  have evne: "events_of (fst (?blk v)) \<noteq> []"
    by (simp add: events_of_def sum_block_def case_prod_beta)
  have "last (trace (pre @ fst (run_blocks ?blk vs))) = last (events_of (fst (?blk v)))"
    using last_trace [of "pre @ fst (run_blocks ?blk vs)"] ne lp evne by simp
  with v e c nl lp show ?thesis by auto
qed

subsection \<open>The whole reduction program\<close>

lemma sum_program_started:
  assumes g: "generate raw cnt = (xs, reference_sum)"
    and ok: "ok = agrees xs cnt schedule device reference_sum"
    and alldef: "all = List.product sum_variants [0..<iters]"
  shows "started (fst (sum_program cnt iters raw schedule device)) = attempted ok all"
    and "list_all ok all \<Longrightarrow> snd (sum_program cnt iters raw schedule device) = Inr 0"
    and "\<not> list_all ok all \<Longrightarrow>
          \<exists>v\<in>set sum_variants.
             snd (sum_program cnt iters raw schedule device) = Inl (RuntimeError (message v))
           \<and> last (trace (fst (sum_program cnt iters raw schedule device))) = Cerr (message v)
           \<and> NextLap \<notin> set (last (trials (last (fst (sum_program cnt iters raw schedule device)))))"
proof -
  let ?cand = "candidate xs cnt schedule device"
  let ?blk = "\<lambda>v. sum_block cnt iters reference_sum (?cand v) v"
  let ?hosts = "[''CPU'', ''CPU OMP'']"
  have ok': "ok = (\<lambda>p. ?cand (fst p) (snd p) = reference_sum)"
    by (simp add: ok agrees_def fun_eq_iff)
  note H = run_blocks_sum [OF refl ok', of cnt iters ?hosts]
  note G = run_blocks_sum [OF refl ok', of cnt iters sum_kernels]
  have parts: "all = List.product ?hosts [0..<iters] @ List.product sum_kernels [0..<iters]"
    by (simp add: alldef sum_variants_def)
  obtain hs hr where h: "run_blocks ?blk ?hosts = (hs, hr)" by (cases "run_blocks ?blk ?hosts")
  obtain gs gr where k: "run_blocks ?blk sum_kernels = (gs, gr)" by (cases "run_blocks ?blk sum_kernels")
  have stp: "started (hs @ device_setup # gs) = started hs @ started gs"
    by (simp add: started_def device_setup_def)
  show "started (fst (sum_program cnt iters raw schedule device)) = attempted ok all"
  proof (cases "list_all ok (List.product ?hosts [0..<iters])")
    case True
    with H h have "hr = Inr ()" and "started hs = attempted ok (List.product ?hosts [0..<iters])"
      by simp_all
    moreover from G k have "started gs = attempted ok (List.product sum_kernels [0..<iters])" by simp
    ultimately show ?thesis
      using True h k g stp
      by (cases gr) (simp_all add: sum_program_def parts attempted_append attempted_all)
  next
    case False
    with H h obtain v where "hr = Inl (RuntimeError (message v))"
      and "started hs = attempted ok (List.product ?hosts [0..<iters])"
      by auto
    then show ?thesis
      using False h g by (simp add: sum_program_def parts attempted_append)
  qed
  show "snd (sum_program cnt iters raw schedule device) = Inr 0" if "list_all ok all"
  proof -
    from that have "list_all ok (List.product ?hosts [0..<iters])"
      and "list_all ok (List.product sum_kernels [0..<iters])"
      by (simp_all add: parts)
    with H G h k have "hr = Inr ()" and "gr = Inr ()" by simp_all
    then show ?thesis using h k g by (simp add: sum_program_def)
  qed
  show "\<exists>v\<in>set sum_variants.
             snd (sum_program cnt iters raw schedule device) = Inl (RuntimeError (message v))
           \<and> last (trace (fst (sum_program cnt iters raw schedule device))) = Cerr (message v)
           \<and> NextLap \<notin> set (last (trials (last (fst (sum_program cnt iters raw schedule device)))))"
    if nall: "\<not> list_all ok all"
  proof (cases "list_all ok (List.product ?hosts [0..<iters])")
    case True
    with H h have hr: "hr = Inr ()" by simp
    from True nall have "\<not> list_all ok (List.product sum_kernels [0..<iters])"
      by (simp add: parts)
    with G k obtain w where "gr = Inl (RuntimeError (message w))" by auto
    then have gr: "snd (run_blocks ?blk sum_kernels) = Inl (RuntimeError (message w))"
      using k by simp
    from run_blocks_sum_Inl [OF gr, of "hs @ [device_setup]"] obtain v where
      "v \<in> set sum_kernels" "RuntimeError (message w) = RuntimeError (message v)"
      "last (trace (hs @ device_setup # gs)) = Cerr (message v)"
      "NextLap \<notin> set (last (trials (last (hs @ device_setup # gs))))"
      using k by auto
    then show ?thesis
      using h k g hr gr by (auto simp add: sum_program_def sum_variants_def)
  next
    case False
    with H h obtain w where "hr = Inl (RuntimeError (message w))" by auto
    then have hr: "snd (run_blocks ?blk ?hosts) = Inl (RuntimeError (message w))"
      using h by simp
    from run_blocks_sum_Inl [OF hr, of "[]"] obtain v where
      "v \<in> set ?hosts" "RuntimeError (message w) = RuntimeError (message v)"
      "last (trace hs) = Cerr (message v)"
      "NextLap \<notin> set (last (trials (last hs)))"
      using h by auto
    then show ?thesis
      using h g hr by (auto simp add: sum_program_def sum_variants_def)
  qed
qed



lemma generate_sequential:
  assumes "generate raw cnt = (xs, reference_sum)"
  shows "length xs = unat cnt" and "reference_sum = sum_list xs"
    and "sequential_sum xs (unat cnt) = reference_sum"
proof -
  have xs: "xs = map (generated_value raw cnt) [0..<unat cnt]"
    and r: "reference_sum = sum_list (map (generated_value raw cnt) [0..<unat cnt])"
    using assms by (auto simp add: generate_eq)
  show len: "length xs = unat cnt" by (simp add: xs)
  show "reference_sum = sum_list xs" by (simp add: xs r)
  have "sequential_sum xs (length xs) = sum_list xs"
    by (simp add: sequential_sum_eq nth_sum_list)
  then show "sequential_sum xs (unat cnt) = reference_sum"
    by (simp add: len xs r)
qed

text \<open>
  C2.  In the reduction program the trials that are started are, in program order over the
  seven variants and their iterations, exactly those up to and including the first one
  whose candidate sum differs from the reference sum.  If there is such a trial the program
  ends with the exception: the diagnostic on standard error is the last action of the run,
  the failing trial does not reach the end of its lap, and no later trial or variant is
  started.  If there is none the program returns 0.
\<close>

theorem reduction_mismatch_is_fatal:
  assumes "generate raw cnt = (xs, reference_sum)"
    and "ok = agrees xs cnt schedule device reference_sum"
    and "all = List.product sum_variants [0..<iters]"
    and "sum_program cnt iters raw schedule device = (bs, out)"
  shows "started bs = attempted ok all
       \<and> (list_all ok all \<longrightarrow> out = Inr 0)
       \<and> (\<not> list_all ok all \<longrightarrow>
            (\<exists>v\<in>set sum_variants. out = Inl (RuntimeError (message v))
                                  \<and> last (trace bs) = Cerr (message v))
            \<and> NextLap \<notin> set (last (trials (last bs))))"
  using sum_program_started [OF assms(1,2,3)] assms(4) by auto

theorem reduction_mismatch_is_fatal_witness:
  "started (fst (sum_program 2 2 (\<lambda>i. i) (\<lambda>iter. [[0], [1]])
                   (\<lambda>v iter. if v = ''sum_loop'' \<and> iter = 1 then 7 else 1)))
     = [(''CPU'', 0), (''CPU'', 1), (''CPU OMP'', 0), (''CPU OMP'', 1),
        (''sum_naive'', 0), (''sum_naive'', 1), (''sum_loop'', 0), (''sum_loop'', 1)]
   \<and> (\<exists>v\<in>set sum_variants.
         snd (sum_program 2 2 (\<lambda>i. i) (\<lambda>iter. [[0], [1]])
                (\<lambda>v iter. if v = ''sum_loop'' \<and> iter = 1 then 7 else 1))
           = Inl (RuntimeError (message v)))
   \<and> started (fst (sum_program 2 2 (\<lambda>i. i) (\<lambda>iter. [[0], [1]]) (\<lambda>v iter. 1)))
     = List.product sum_variants [0..<2]
   \<and> snd (sum_program 2 2 (\<lambda>i. i) (\<lambda>iter. [[0], [1]]) (\<lambda>v iter. 1)) = Inr 0"
proof -
  let ?dev = "\<lambda>v iter. if v = ''sum_loop'' \<and> iter = (1::nat) then (7::u32) else 1"
  let ?good = "\<lambda>(v::string) (iter::nat). (1::u32)"
  let ?sched = "\<lambda>iter::nat. [[0::nat], [1]]"
  have g: "generate (\<lambda>i. i) 2 = ([0, 1], 1)"
    by (simp add: generate_eq generated_value_def FastRandom_next_def UINT_MAX_def upt_rec)
  have a: "attempted (agrees [0, 1] 2 ?sched ?dev 1) (List.product sum_variants [0..<2])
           = [(''CPU'', 0), (''CPU'', 1), (''CPU OMP'', 0), (''CPU OMP'', 1),
              (''sum_naive'', 0), (''sum_naive'', 1), (''sum_loop'', 0), (''sum_loop'', 1)]"
    by (simp add: attempted_def agrees_def candidate_def sum_variants_def sum_kernels_def
        sequential_sum_def omp_sum_def thread_sum_def upt_rec)
  have b: "\<not> list_all (agrees [0, 1] 2 ?sched ?dev 1) (List.product sum_variants [0..<2])"
    by (simp add: agrees_def candidate_def sum_variants_def sum_kernels_def
        sequential_sum_def omp_sum_def thread_sum_def upt_rec)
  have c: "list_all (agrees [0, 1] 2 ?sched ?good 1) (List.product sum_variants [0..<2])"
    by (simp add: agrees_def candidate_def sum_variants_def sum_kernels_def
        sequential_sum_def omp_sum_def thread_sum_def upt_rec)
  from reduction_mismatch_is_fatal [OF g refl refl prod.collapse [symmetric], of 2 ?sched ?dev]
    reduction_mismatch_is_fatal [OF g refl refl prod.collapse [symmetric], of 2 ?sched ?good]
    a b c attempted_all [OF c]
  show ?thesis by auto
qed

text \<open>
  C6.  For a non-zero element count, whatever the generator's raw stream: the array has the
  declared length, every generated value is at most \<open>UINT_MAX / n\<close>, the exact sum of the
  values is at most \<open>UINT_MAX\<close>, and the 32-bit accumulator \<open>reference_sum\<close> holds exactly
  that sum.
\<close>

theorem generated_sum_cannot_overflow:
  assumes "cnt \<noteq> 0" and "generate raw cnt = (xs, reference_sum)"
  shows "length xs = unat cnt
       \<and> (\<forall>i<unat cnt. unat (xs ! i) \<le> unat UINT_MAX div unat cnt)
       \<and> (\<Sum>x\<leftarrow>xs. unat x) \<le> unat UINT_MAX
       \<and> unat reference_sum = (\<Sum>x\<leftarrow>xs. unat x)"
proof -
  have xs: "xs = map (generated_value raw cnt) [0..<unat cnt]"
    using assms(2) by (auto simp add: generate_eq)
  note gs = generate_sequential [OF assms(2)]
  have pos: "0 < length xs" using assms(1) gs(1) by (simp add: unat_gt_0)
  have bound: "\<forall>x\<in>set xs. unat x \<le> unat UINT_MAX div length xs"
    using generated_value_le [of raw cnt] by (auto simp add: xs)
  have le: "(\<Sum>x\<leftarrow>xs. unat x) \<le> unat UINT_MAX"
    by (rule bounded_values_no_overflow [OF pos bound])
  then have "(\<Sum>x\<leftarrow>xs. unat x) < 2 ^ 32"
    by (simp add: unat_UINT_MAX)
  then have "unat (sum_list xs) = (\<Sum>x\<leftarrow>xs. unat x)"
    by (rule unat_sum_list_exact)
  moreover have "\<forall>i<unat cnt. unat (xs ! i) \<le> unat UINT_MAX div unat cnt"
    using generated_value_le [of raw cnt] by (simp add: xs)
  ultimately show ?thesis
    using gs le by simp
qed

theorem generated_sum_cannot_overflow_witness:
  "length (fst (generate (\<lambda>i. 7 * i) n)) = 100000000
   \<and> unat (fst (generate (\<lambda>i. 7 * i) n) ! 5) \<le> 42
   \<and> (\<Sum>x\<leftarrow>fst (generate (\<lambda>i. 7 * i) n). unat x) \<le> 4294967295
   \<and> unat (snd (generate (\<lambda>i. 7 * i) n)) = (\<Sum>x\<leftarrow>fst (generate (\<lambda>i. 7 * i) n). unat x)"
proof -
  have nz: "n \<noteq> 0" by (simp add: n_def)
  have un: "unat n = 100000000" by (simp add: n_def)
  have "(5::nat) < unat n" by (simp add: un)
  with generated_sum_cannot_overflow [OF nz prod.collapse [symmetric], of "\<lambda>i. 7 * i"]
  have "unat (fst (generate (\<lambda>i. 7 * i) n) ! 5) \<le> unat UINT_MAX div unat n"
    by blast
  with generated_sum_cannot_overflow [OF nz prod.collapse [symmetric], of "\<lambda>i. 7 * i"]
  show ?thesis by (simp add: un unat_UINT_MAX)
qed

text \<open>
  C7.  For every array of 32-bit unsigned values and every admissible schedule of the
  parallel loop (every iteration run once, by whichever thread, the partial sums combined
  in whichever order), the parallel reduction returns the same 32-bit value as the
  sequential loop; and when the array is the generated one, that value is the reference sum
  accumulated during generation.
\<close>

theorem host_reductions_agree:
  assumes "omp_schedule (length xs) schedule"
  shows "omp_sum xs schedule = sequential_sum xs (length xs)
       \<and> (generate raw cnt = (xs, reference_sum) \<longrightarrow>
            sequential_sum xs (length xs) = reference_sum)"
  using omp_sum_sequential [OF assms] generate_sequential [of raw cnt xs reference_sum]
  by auto

theorem host_reductions_agree_witness:
  "omp_schedule 3 (contiguous_chunks 0 [2, 1])
   \<and> generate (\<lambda>i. 5 + i) 3 = ([5, 6, 7], 18)
   \<and> omp_sum [5, 6, 7] (contiguous_chunks 0 [2, 1]) = 18
   \<and> sequential_sum [5, 6, 7] 3 = 18"
proof -
  have l: "length [5, 6, 7 :: u32] = 3" by simp
  have s3: "omp_schedule 3 (contiguous_chunks 0 [2, 1])"
    using contiguous_chunks_schedule [of "[2, 1]"] by simp
  have s: "omp_schedule (length [5, 6, 7 :: u32]) (contiguous_chunks 0 [2, 1])"
    unfolding l by (rule s3)
  have g: "generate (\<lambda>i. 5 + i) 3 = ([5, 6, 7], 18)"
    by (simp add: generate_eq generated_value_def FastRandom_next_def UINT_MAX_def upt_rec)
  from host_reductions_agree [OF s, of "\<lambda>i. 5 + i" 3 18, unfolded l] s3 g
  show ?thesis by simp
qed

section \<open>Properties of the matrix benchmark\<close>

subsection \<open>Launch geometry\<close>

lemma unat_times_128_mod: "unat ((w :: u32) * 128) mod 128 = 0"
proof -
  have "unat (w * 128) = (unat w * 128) mod 2 ^ 32"
    by (simp add: unat_word_ariths)
  moreover have "(unat w * 128) mod 2 ^ 32 mod 128 = (unat w * 128) mod 128"
    by (rule mod_mod_cancel) simp
  ultimately show ?thesis by simp
qed

lemma global_work_size_tiles: "unat (global_work_size v cnt) mod unat workGroupSize = 0"
  using unat_times_128_mod by (simp add: global_work_size_def workGroupSize_def)

lemma global_work_size_n:
  "global_work_size v n =
     (if v = ''sum_loop'' \<or> v = ''sum_loop_coalesced'' then 1562624 else 100000000)"
  by (simp add: global_work_size_def workGroupSize_def n_def)

text \<open>
  C9.  For every kernel of the reduction program and every element count the global size is
  a multiple of the group size 128; for the program's \<open>n\<close> it is the least such multiple
  that is not below \<open>n\<close>, respectively \<open>n / 64\<close>.  The three geometries of the matrix
  program tile their extents for \<open>M = K = N = 1024\<close>.
\<close>

theorem launch_geometry_tiles:
  "tiles (WorkSize1 workGroupSize (global_work_size v cnt))
   \<and> unat n \<le> unat (global_work_size ''sum_naive'' n)
   \<and> unat (global_work_size ''sum_naive'' n) < unat n + 128
   \<and> global_work_size ''sum_local'' n = global_work_size ''sum_naive'' n
   \<and> global_work_size ''sum_tree'' n = global_work_size ''sum_naive'' n
   \<and> unat (n div 64) \<le> unat (global_work_size ''sum_loop'' n)
   \<and> unat (global_work_size ''sum_loop'' n) < unat (n div 64) + 128
   \<and> global_work_size ''sum_loop_coalesced'' n = global_work_size ''sum_loop'' n
   \<and> mm_work_size ''matrix_multiplication_naive'' M N = WorkSize2 16 16 1024 1024
   \<and> mm_work_size ''matrix_multiplication_block'' M N = WorkSize2 16 16 1024 1024
   \<and> mm_work_size ''matrix_multiplication_many'' M N = WorkSize2 16 4 1024 256
   \<and> tiles (mm_work_size ''matrix_multiplication_naive'' M N)
   \<and> tiles (mm_work_size ''matrix_multiplication_block'' M N)
   \<and> tiles (mm_work_size ''matrix_multiplication_many'' M N)"
proof -
  have "tiles (WorkSize1 workGroupSize (global_work_size v cnt))"
    by (simp add: global_work_size_tiles)
  moreover have "unat n = 100000000" "unat (n div 64) = 1562500"
    by (simp_all add: n_def)
  moreover have "mm_work_size ''matrix_multiplication_naive'' M N = WorkSize2 16 16 1024 1024"
    "mm_work_size ''matrix_multiplication_block'' M N = WorkSize2 16 16 1024 1024"
    "mm_work_size ''matrix_multiplication_many'' M N = WorkSize2 16 4 1024 256"
    by (simp_all add: mm_work_size_def M_def N_def)
  ultimately show ?thesis
    by (simp add: global_work_size_n)
qed

subsection \<open>Throughput\<close>

lemma gflops_eq: "gflops = 2"
  by (simp add: gflops_def gflops_of_def M_def K_def N_def)

text \<open>
  C8.  The program's \<open>gflops\<close> is the integer quotient 2, and with a mean latency of one
  second and no rounding the reported throughput is 2, whereas the operation count
  \<open>2 M K N\<close> divided by \<open>10^9\<close> and by the mean latency is 2.147483648.
\<close>

theorem gflops_is_truncated:
  "gflops = 2
   \<and> reported_gflops Fin gflops (Fin 1) = Fin 2
   \<and> spec_throughput M K N 1 = 2147483648 / 1000000000
   \<and> reported_gflops Fin gflops (Fin 1) \<noteq> Fin (spec_throughput M K N 1)"
  by (simp add: gflops_eq reported_gflops_def fround_def spec_throughput_def M_def K_def N_def)

subsection \<open>Validation\<close>

lemma fadd_NaN [simp]: "fadd rnd NaN b = NaN"
  by (cases b) simp_all

lemma fdiv_NaN [simp]: "fdiv rnd NaN b = NaN"
  by (cases b) simp_all

lemma diff_step_NaN: "diff_step rnd cs reference i NaN = NaN"
  by (simp add: diff_step_def Let_def)

lemma fold_diff_step_NaN: "fold (diff_step rnd cs reference) is NaN = NaN"
  by (induction "is") (simp_all add: diff_step_NaN)

lemma diff_NaN_candidate: "diff rnd NaN b = NaN"
  by (cases b) (simp_all add: diff_def fsub_def)

lemma diff_sum_NaN:
  assumes "i < unat (rows * cols)" and "cs i = NaN"
  shows "diff_sum rnd rows cols cs reference = NaN"
proof -
  have "[0..<i + (unat (rows * cols) - i)] = [0..<i] @ [i..<i + (unat (rows * cols) - i)]"
    by (rule upt_add_eq_append) simp
  then have split: "[0..<unat (rows * cols)] = [0..<i] @ i # [Suc i..<unat (rows * cols)]"
    using assms(1) by (simp add: upt_conv_Cons)
  have step: "diff_step rnd cs reference i acc = NaN" for acc
    by (cases acc) (simp_all add: diff_step_def assms(2) nonzero_pair_def diff_NaN_candidate)
  show ?thesis
    by (simp add: diff_sum_def split step fold_diff_step_NaN)
qed

lemma NaN_candidate_passes:
  assumes "i < unat (rows * cols)" and "cs i = NaN"
  shows "diff_avg rnd rows cols cs reference = NaN"
    and "\<not> too_big rnd rows cols cs reference"
    and "\<not> fle (diff_avg rnd rows cols cs reference) tolerance"
proof -
  show a: "diff_avg rnd rows cols cs reference = NaN"
    by (simp add: diff_avg_def diff_sum_NaN [of i rows cols cs, OF assms])
  show "\<not> too_big rnd rows cols cs reference"
    by (simp add: too_big_def a fgt_def tolerance_def)
  show "\<not> fle (diff_avg rnd rows cols cs reference) tolerance"
    by (simp add: a)
qed

lemma diff_infinite_candidate:
  assumes "is_Fin b" and "a = PInf \<or> a = NInf"
  shows "diff rnd a b = NaN"
  using assms by (cases b) (auto simp add: diff_def fsub_def divisor_def std_max_def)

lemma unat_MN: "unat (M * N) = 1048576"
  by (simp add: M_def N_def)

lemma divisor_nonzero:
  assumes "b \<noteq> NaN" and "nonzero_pair a b"
  shows "divisor a b \<noteq> Fin 0"
  using assms
  by (cases a; cases b) (auto simp add: divisor_def std_max_def nonzero_pair_def)

lemma zero_pair_skipped:
  "cs i = Fin 0 \<Longrightarrow> reference i = Fin 0 \<Longrightarrow> diff_step rnd cs reference i acc = acc"
  by (simp add: diff_step_def nonzero_pair_def)

lemma diff_same_finite: "nonzero_pair (Fin x) (Fin x) \<Longrightarrow> diff rnd (Fin x) (Fin x) = Fin 0"
  by (simp add: diff_def fsub_def divisor_def std_max_def nonzero_pair_def fround_def)

lemma diff_step_same:
  assumes "is_Fin (reference i)"
  shows "diff_step rnd reference reference i (Fin 0) = Fin 0"
proof -
  from assms obtain x where x: "reference i = Fin x" by (cases "reference i") simp_all
  show ?thesis
    by (simp add: diff_step_def x diff_same_finite fround_def Let_def)
qed

lemma fold_diff_step_same:
  assumes "\<forall>i\<in>set is. is_Fin (reference i)"
  shows "fold (diff_step rnd reference reference) is (Fin 0) = Fin 0"
  using assms by (induction "is") (simp_all add: diff_step_same)

lemma identical_candidate:
  assumes "\<forall>i<unat (rows * cols). is_Fin (reference i)" and "rows * cols \<noteq> 0"
  shows "diff_sum rnd rows cols reference reference = Fin 0"
    and "diff_avg rnd rows cols reference reference = Fin 0"
    and "\<not> too_big rnd rows cols reference reference"
proof -
  show s: "diff_sum rnd rows cols reference reference = Fin 0"
    unfolding diff_sum_def by (rule fold_diff_step_same) (use assms(1) in simp)
  show a: "diff_avg rnd rows cols reference reference = Fin 0"
    using assms(2) by (simp add: diff_avg_def s fround_def unsigned_eq_0_iff)
  show "\<not> too_big rnd rows cols reference reference"
    by (simp add: too_big_def a fgt_def tolerance_def)
qed

lemma diff_checked_value: "fst (diff_checked rnd a b) = diff rnd a b"
  by (simp add: diff_checked_def checked_div_def diff_def divisor_def)

lemma diff_checked_flag: "snd (diff_checked rnd a b) \<longleftrightarrow> divisor a b = Fin 0"
  by (simp add: diff_checked_def checked_div_def divisor_def)

lemma diff_step_checked_value:
  "fst (diff_step_checked rnd cs reference i st) = diff_step rnd cs reference i (fst st)"
  using diff_checked_value [of rnd "cs i" "reference i"]
  by (simp add: diff_step_checked_def diff_step_def Let_def case_prod_beta)

lemma diff_step_checked_flag:
  "snd (diff_step_checked rnd cs reference i st) \<longleftrightarrow>
     snd st \<or> (nonzero_pair (cs i) (reference i) \<and> divisor (cs i) (reference i) = Fin 0)"
  using diff_checked_flag [of rnd "cs i" "reference i"]
  by (simp add: diff_step_checked_def Let_def case_prod_beta)

lemma fold_checked_value:
  "fst (fold (diff_step_checked rnd cs reference) is st) = fold (diff_step rnd cs reference) is (fst st)"
  by (induction "is" arbitrary: st) (simp_all add: diff_step_checked_value)

lemma fold_checked_flag:
  "snd (fold (diff_step_checked rnd cs reference) is st) \<longleftrightarrow>
     snd st \<or> (\<exists>i\<in>set is. nonzero_pair (cs i) (reference i) \<and> divisor (cs i) (reference i) = Fin 0)"
  by (induction "is" arbitrary: st) (auto simp add: diff_step_checked_flag)

lemma diff_avg_checked_value:
  "fst (diff_avg_checked rnd rows cols cs reference) = diff_avg rnd rows cols cs reference"
  using fold_checked_value [of rnd cs reference "[0..<unat (rows * cols)]" "(Fin 0, False)"]
  by (simp add: diff_avg_checked_def diff_avg_def diff_sum_def checked_div_def case_prod_beta)

lemma diff_avg_checked_flag:
  "snd (diff_avg_checked rnd rows cols cs reference) \<longleftrightarrow>
     (\<exists>i<unat (rows * cols). nonzero_pair (cs i) (reference i) \<and> divisor (cs i) (reference i) = Fin 0)
     \<or> rows * cols = 0"
  using fold_checked_flag [of rnd cs reference "[0..<unat (rows * cols)]" "(Fin 0, False)"]
  by (auto simp add: diff_avg_checked_def checked_div_def case_prod_beta unsigned_eq_0_iff)

lemma diff_sum_NaN_step:
  assumes "i < unat (rows * cols)" and "\<And>acc. diff_step rnd cs reference i acc = NaN"
  shows "diff_sum rnd rows cols cs reference = NaN"
proof -
  have "[0..<i + (unat (rows * cols) - i)] = [0..<i] @ [i..<i + (unat (rows * cols) - i)]"
    by (rule upt_add_eq_append) simp
  then have parts: "[0..<unat (rows * cols)] = [0..<i] @ i # [Suc i..<unat (rows * cols)]"
    using assms(1) by (simp add: upt_conv_Cons)
  show ?thesis
    by (simp add: diff_sum_def parts assms(2) fold_diff_step_NaN)
qed

lemma fadd_NaN_right [simp]: "fadd rnd a NaN = NaN"
  by (cases a) simp_all

text \<open>
  C10 as amended.  For a non-empty output and every candidate: the flagged validation
  computes the same average as the validation; if no reference element is NaN, no division
  of the validation has a zero divisor, neither the quotients under the guard
  \<open>a != 0.0 || b != 0.0\<close> nor the division by the element count; an element where both
  values are zero leaves the running sum unchanged; and if every reference element is
  finite, a candidate identical to the reference has average exactly 0 and passes.
\<close>

theorem validator_never_divides_by_zero:
  assumes "rows * cols \<noteq> 0"
  shows "fst (diff_avg_checked rnd rows cols cs reference) = diff_avg rnd rows cols cs reference
       \<and> (\<forall>a b. fst (diff_checked rnd a b) = diff rnd a b)
       \<and> ((\<forall>i<unat (rows * cols). reference i \<noteq> NaN) \<longrightarrow>
            \<not> snd (diff_avg_checked rnd rows cols cs reference))
       \<and> (\<forall>i acc. cs i = Fin 0 \<and> reference i = Fin 0 \<longrightarrow>
                    diff_step rnd cs reference i acc = acc)
       \<and> ((\<forall>i<unat (rows * cols). is_Fin (reference i)) \<longrightarrow>
            diff_avg rnd rows cols reference reference = Fin 0
          \<and> \<not> too_big rnd rows cols reference reference)"
proof -
  have "\<not> snd (diff_avg_checked rnd rows cols cs reference)"
    if "\<forall>i<unat (rows * cols). reference i \<noteq> NaN"
    using that assms divisor_nonzero by (auto simp add: diff_avg_checked_flag)
  moreover have "diff_avg rnd rows cols reference reference = Fin 0
          \<and> \<not> too_big rnd rows cols reference reference"
    if "\<forall>i<unat (rows * cols). is_Fin (reference i)"
    using identical_candidate [OF that assms] by simp
  ultimately show ?thesis
    by (simp add: diff_avg_checked_value diff_checked_value zero_pair_skipped)
qed

text \<open>
  C10, counterexample.  With a reference of NaNs and a candidate of zeros the guard holds
  and the quotient is taken with the divisor \<open>std::max(0, NaN) = 0\<close>; and a candidate
  identical to a reference of infinities has the average NaN, not 0.
\<close>

theorem validator_never_divides_by_zero_counterexample:
  "nonzero_pair (zeros 0) (nans 0)
   \<and> diff_checked Fin (zeros 0) (nans 0) = (NaN, True)
   \<and> snd (diff_avg_checked Fin M N zeros nans)
   \<and> diff_avg Fin M N infinities infinities = NaN"
proof -
  have g: "nonzero_pair (zeros 0) (nans 0)"
    by (simp add: nonzero_pair_def zeros_def nans_def)
  have d: "diff_checked Fin (zeros 0) (nans 0) = (NaN, True)"
    by (simp add: diff_checked_def checked_div_def zeros_def nans_def fsub_def std_max_def)
  have z: "0 < unat (M * N)" by (simp add: unat_MN)
  have "divisor (zeros 0) (nans 0) = Fin 0"
    by (simp add: divisor_def std_max_def zeros_def nans_def)
  with g z have f: "snd (diff_avg_checked Fin M N zeros nans)"
    unfolding diff_avg_checked_flag by blast
  have "diff_step Fin infinities infinities 0 acc = NaN" for acc
    by (simp add: diff_step_def infinities_def nonzero_pair_def diff_def fsub_def)
  then have "diff_sum Fin M N infinities infinities = NaN"
    using z by (intro diff_sum_NaN_step [of 0]) simp_all
  then have "diff_avg Fin M N infinities infinities = NaN"
    by (simp add: diff_avg_def)
  with g d f show ?thesis by simp
qed

theorem validator_never_divides_by_zero_witness:
  "M * N \<noteq> 0
   \<and> nonzero_pair NaN (ramp 7)
   \<and> \<not> snd (diff_avg_checked Fin M N (ramp(7 := NaN)) ramp)
   \<and> diff_step Fin (ramp(7 := NaN)) ramp 0 (Fin 5) = Fin 5
   \<and> nonzero_pair (ramp 1) (ramp 1) \<and> diff_checked Fin (ramp 1) (ramp 1) = (Fin 0, False)
   \<and> diff_avg Fin M N ramp ramp = Fin 0
   \<and> \<not> too_big Fin M N ramp ramp"
proof -
  have nz: "M * N \<noteq> 0"
    by (simp add: M_def N_def)
  have f: "\<forall>i<unat (M * N). is_Fin (ramp i)"
    by (simp add: ramp_def)
  have nn: "\<forall>i<unat (M * N). ramp i \<noteq> NaN"
    by (simp add: ramp_def)
  have g: "nonzero_pair NaN (ramp 7)"
    by (simp add: nonzero_pair_def)
  have z: "(ramp(7 := NaN)) 0 = Fin 0 \<and> ramp 0 = Fin 0"
    by (simp add: ramp_def)
  have q: "nonzero_pair (ramp 1) (ramp 1) \<and> diff_checked Fin (ramp 1) (ramp 1) = (Fin 0, False)"
    by (simp add: nonzero_pair_def ramp_def diff_checked_def checked_div_def fsub_def std_max_def
        fround_def)
  from validator_never_divides_by_zero [OF nz, of Fin "ramp(7 := NaN)" ramp] nz f nn g z q
  show ?thesis by auto
qed

subsection \<open>The shape of a kernel block\<close>

lemma exec_loop_trials:
  "fst (exec_loop device v ws iters dev_cs) = replicate (length iters) [Exec v ws, NextLap]"
  by (induction iters arbitrary: dev_cs) (simp_all add: case_prod_beta)

lemma exec_loop_contents:
  "snd (exec_loop device v ws iters dev_cs) = (if iters = [] then dev_cs else device v (last iters))"
  by (induction iters arbitrary: dev_cs) (simp_all add: case_prod_beta)

lemma exec_loop_upt:
  "snd (exec_loop device v ws [0..<iters] dev_cs) = last_output device dev_cs iters v"
proof (cases iters)
  case 0
  then show ?thesis by (simp add: last_output_def)
next
  case (Suc k)
  then show ?thesis by (simp add: exec_loop_contents last_output_def)
qed

lemma mm_block_eq:
  "mm_block rnd rows cols iters reference device dev_cs v =
     (\<lparr>label = v,
       before = [WriteN as_gpu, WriteN bs_gpu, Compile v, TimerStart],
       trials = replicate iters [Exec v (mm_work_size v rows cols), NextLap],
       after = mm_after (too_big rnd rows cols (last_output device dev_cs iters v) reference) v\<rparr>,
      too_big rnd rows cols (last_output device dev_cs iters v) reference,
      last_output device dev_cs iters v)"
  using exec_loop_trials [of device v "mm_work_size v rows cols" "[0..<iters]" dev_cs]
    exec_loop_upt [of device v "mm_work_size v rows cols" iters dev_cs]
  by (simp add: mm_block_def case_prod_beta Let_def mm_after_def)

lemma last_output_twice:
  "last_output device (last_output device dev_cs iters u) iters v = last_output device dev_cs iters v"
  by (simp add: last_output_def)

lemma mm_block_after_block:
  "mm_block rnd rows cols iters reference device (last_output device dev_cs iters u) v =
   mm_block rnd rows cols iters reference device dev_cs v"
  by (simp add: mm_block_eq last_output_twice)

lemma run_variants_eq:
  assumes "blk = mm_block rnd rows cols iters reference device"
    and "pass = (\<lambda>v. \<not> too_big rnd rows cols (last_output device dev_cs iters v) reference)"
  shows "run_variants blk vs dev_cs =
           (map (\<lambda>v. fst (blk dev_cs v)) (attempted pass vs), if list_all pass vs then 0 else 1)"
proof (induction vs)
  case Nil
  show ?case by (simp add: attempted_Nil)
next
  case (Cons v vs)
  have step: "blk dev_cs v = (fst (blk dev_cs v), \<not> pass v, last_output device dev_cs iters v)"
    by (simp add: assms mm_block_eq)
  have same: "blk (last_output device dev_cs iters v) = blk dev_cs"
    by (simp add: assms(1) fun_eq_iff mm_block_after_block)
  have rest: "run_variants blk vs (last_output device dev_cs iters v) = run_variants blk vs dev_cs"
  proof (induction vs)
    case Nil
    show ?case by simp
  next
    case (Cons w ws)
    show ?case by (simp add: same)
  qed
  show ?case
  proof (cases "pass v")
    case True
    have "run_variants blk (v # vs) dev_cs
          = (case run_variants blk vs (last_output device dev_cs iters v) of
               (bs, status) \<Rightarrow> (fst (blk dev_cs v) # bs, status))"
      using True by (subst run_variants.simps, subst step) simp
    with True Cons rest show ?thesis by (simp add: attempted_Cons)
  next
    case False
    have "run_variants blk (v # vs) dev_cs = ([fst (blk dev_cs v)], 1)"
      using False by (subst run_variants.simps, subst step) simp
    with False show ?thesis by (simp add: attempted_Cons)
  qed
qed

lemma attempted_ne: "xs \<noteq> [] \<Longrightarrow> attempted ok xs \<noteq> []"
  by (cases xs) (simp_all add: attempted_Cons)

lemma attempted_fails_iff: "(\<exists>x\<in>set (attempted ok xs). \<not> ok x) \<longleftrightarrow> \<not> list_all ok xs"
  by (induction xs) (auto simp add: attempted_Nil attempted_Cons)

lemma attempted_last: "\<not> list_all ok xs \<Longrightarrow> \<not> ok (last (attempted ok xs))"
proof (induction xs)
  case Nil
  then show ?case by simp
next
  case (Cons x xs)
  show ?case
  proof (cases "ok x")
    case True
    with Cons.prems have "\<not> list_all ok xs" by simp
    then have "xs \<noteq> []" by auto
    with True Cons \<open>\<not> list_all ok xs\<close> show ?thesis
      by (simp add: attempted_Cons attempted_ne)
  next
    case False
    then show ?thesis by (simp add: attempted_Cons)
  qed
qed

lemma attempted_subset: "set (attempted ok xs) \<subseteq> set xs"
  by (induction xs) (auto simp add: attempted_Nil attempted_Cons)


subsection \<open>The whole matrix program\<close>

lemma mm_program_eq:
  assumes "reference = cs_cpu_reference rnd32 (as_of nextf) (bs_of nextf rows inner)
                         (unat rows) (unat inner) (unat cols) iters"
    and "pass = (\<lambda>v. \<not> too_big rnd64 rows cols (last_output device dev_cs iters v) reference)"
  shows "mm_program rnd32 rnd64 rows inner cols iters nextf dev_cs device =
           (data_generated # cpu_block iters
              # map (\<lambda>v. fst (mm_block rnd64 rows cols iters reference device dev_cs v))
                    (attempted pass mm_kernels),
            if list_all pass mm_kernels then 0 else 1)"
  using run_variants_eq [OF refl assms(2), of mm_kernels]
  by (simp add: mm_program_def assms(1) [symmetric])

lemma events_of_mm_block:
  "events_of (fst (mm_block rnd rows cols iters reference device dev_cs v)) =
     [WriteN as_gpu, WriteN bs_gpu, Compile v, TimerStart]
     @ concat (replicate iters [Exec v (mm_work_size v rows cols), NextLap])
     @ mm_after (too_big rnd rows cols (last_output device dev_cs iters v) reference) v"
  by (simp add: mm_block_eq events_of_def)

lemma Cerr_in_mm_block:
  "Cerr ''Too big difference!'' \<in> set (events_of (fst (mm_block rnd rows cols iters reference device dev_cs v)))
   \<longleftrightarrow> too_big rnd rows cols (last_output device dev_cs iters v) reference"
  by (auto simp add: events_of_mm_block mm_after_def)

lemma last_mm_block:
  "too_big rnd rows cols (last_output device dev_cs iters v) reference \<Longrightarrow>
   last (events_of (fst (mm_block rnd rows cols iters reference device dev_cs v)))
     = Cerr ''Too big difference!''"
  by (simp add: events_of_mm_block mm_after_def)

lemma events_of_mm_block_ne:
  "events_of (fst (mm_block rnd rows cols iters reference device dev_cs v)) \<noteq> []"
  by (simp add: events_of_mm_block)

lemma Cerr_not_in_host_blocks:
  "Cerr s \<notin> set (events_of data_generated)" "Cerr s \<notin> set (events_of (cpu_block iters))"
  by (auto simp add: events_of_def data_generated_def cpu_block_def)

text \<open>
  C1 as amended.  The kernel blocks that are run are, in program order, those up to and
  including the first whose average difference is too big.  The completion status is 0 or
  1; it is 0 exactly when every kernel passes, and 1 exactly when the diagnostic was
  printed; and when it is 1 the diagnostic is the last action of the run: the program
  returns at once and the later kernels are not benchmarked.
\<close>

theorem matrix_failure_returns_at_once:
  assumes "mm_program rnd32 rnd64 rows inner cols iters nextf dev_cs device = (bs, status)"
    and "reference = cs_cpu_reference rnd32 (as_of nextf) (bs_of nextf rows inner)
                       (unat rows) (unat inner) (unat cols) iters"
    and "pass = (\<lambda>v. \<not> too_big rnd64 rows cols (last_output device dev_cs iters v) reference)"
  shows "map label bs = [''Data generated'', ''CPU''] @ attempted pass mm_kernels
       \<and> (status = 0 \<or> status = 1)
       \<and> (status = 0 \<longleftrightarrow> list_all pass mm_kernels)
       \<and> (status = 1 \<longleftrightarrow> Cerr ''Too big difference!'' \<in> set (trace bs))
       \<and> (status = 1 \<longrightarrow> last (trace bs) = Cerr ''Too big difference!'')"
proof -
  let ?blk = "\<lambda>v. fst (mm_block rnd64 rows cols iters reference device dev_cs v)"
  let ?run = "attempted pass mm_kernels"
  from mm_program_eq [OF assms(2,3)] assms(1)
  have bs: "bs = data_generated # cpu_block iters # map ?blk ?run"
    and st: "status = (if list_all pass mm_kernels then 0 else 1)"
    by simp_all
  have labels: "map label bs = [''Data generated'', ''CPU''] @ ?run"
    by (simp add: bs data_generated_def cpu_block_def mm_block_eq comp_def)
  have "Cerr ''Too big difference!'' \<in> set (trace bs) \<longleftrightarrow> (\<exists>v\<in>set ?run. \<not> pass v)"
    using Cerr_not_in_host_blocks
    by (auto simp add: bs trace_def Cerr_in_mm_block assms(3))
  then have cerr: "Cerr ''Too big difference!'' \<in> set (trace bs) \<longleftrightarrow> \<not> list_all pass mm_kernels"
    by (simp add: attempted_fails_iff)
  have lst: "last (trace bs) = Cerr ''Too big difference!''" if "\<not> list_all pass mm_kernels"
  proof -
    have ne: "?run \<noteq> []" by (rule attempted_ne) (simp add: mm_kernels_def)
    then have lb: "last bs = ?blk (last ?run)" by (simp add: bs last_map)
    have "\<not> pass (last ?run)" using that by (rule attempted_last)
    then have "last (events_of (?blk (last ?run))) = Cerr ''Too big difference!''"
      by (simp add: assms(3) last_mm_block)
    moreover have "bs \<noteq> []" by (simp add: bs)
    moreover have "events_of (last bs) \<noteq> []"
      unfolding lb by (rule events_of_mm_block_ne)
    ultimately have "last (trace bs) = last (events_of (last bs))"
      and "last (events_of (?blk (last ?run))) = Cerr ''Too big difference!''"
      by (simp_all add: last_trace)
    then show ?thesis by (simp add: lb)
  qed
  show ?thesis
    using labels st cerr lst by auto
qed

subsection \<open>A NaN in the candidate\<close>

lemma verdict_when_not_NaN:
  assumes "diff_avg rnd rows cols cs reference \<noteq> NaN"
  shows "\<not> too_big rnd rows cols cs reference
         \<longleftrightarrow> fle (diff_avg rnd rows cols cs reference) tolerance"
  using assms
  by (cases "diff_avg rnd rows cols cs reference")
     (auto simp add: too_big_def fgt_def tolerance_def)

text \<open>
  C3.  A candidate with a NaN in its first element, whatever the other elements, the
  reference and the rounding: the average is NaN, which is not \<open>\<le> 0.01\<close>, and the
  validation does not fail.  When the device leaves such an output in every trial, all
  three kernels pass and the program returns 0.
\<close>

theorem nan_candidate_is_accepted:
  "diff_avg rnd M N (cs(0 := NaN)) reference = NaN
   \<and> \<not> fle (diff_avg rnd M N (cs(0 := NaN)) reference) tolerance
   \<and> \<not> too_big rnd M N (cs(0 := NaN)) reference
   \<and> snd (main_matrix_multiplication rnd32 rnd64 nextf dev_cs (\<lambda>v iter. cs(0 := NaN))) = 0"
proof -
  have z: "0 < unat (M * N)" by (simp add: unat_MN)
  have c: "(cs(0 := NaN)) 0 = NaN" by simp
  note P = NaN_candidate_passes [of 0 M N "cs(0 := NaN)", OF z c]
  let ?dev = "\<lambda>(v::string) (iter::nat). cs(0 := NaN)"
  have l: "last_output ?dev dev_cs benchmarkingIters v = cs(0 := NaN)" for v
    by (simp add: last_output_def benchmarkingIters_def)
  have "snd (mm_program rnd32 rnd64 M K N benchmarkingIters nextf dev_cs ?dev) =
          (if list_all (\<lambda>v. \<not> too_big rnd64 M N (last_output ?dev dev_cs benchmarkingIters v)
                  (cs_cpu_reference rnd32 (as_of nextf) (bs_of nextf M K)
                     (unat M) (unat K) (unat N) benchmarkingIters)) mm_kernels
           then 0 else 1)"
    using mm_program_eq [OF refl refl, where ?rnd64.0 = rnd64 and device = ?dev and dev_cs = dev_cs
        and ?rnd32.0 = rnd32 and nextf = nextf and rows = M and inner = K and cols = N
        and iters = benchmarkingIters]
    by simp
  then have "snd (main_matrix_multiplication rnd32 rnd64 nextf dev_cs ?dev) = 0"
    by (simp add: main_matrix_multiplication_def l P(2) list_all_iff)
  with P show ?thesis by simp
qed

subsection \<open>Concrete runs\<close>

lemma cpu_element_zeros: "cpu_element rnd zeros zeros inner cols j i = Fin 0"
proof -
  have "fold (\<lambda>k acc. fadd rnd acc (fmul rnd (zeros (j * inner + k)) (zeros (k * cols + i)))) ks (Fin 0)
        = Fin 0" for ks
    by (induction ks) (simp_all add: zeros_def fround_def)
  then show ?thesis by (simp add: cpu_element_def)
qed

lemma fold_fixed: "(\<And>x. f x s = s) \<Longrightarrow> fold f xs s = s"
  by (induction xs) simp_all

lemma cpu_pass_zeros: "cpu_pass rnd zeros zeros rows inner cols zeros = zeros"
proof -
  have upd: "zeros(k := cpu_element rnd zeros zeros inner cols j i) = zeros" for k j i
    by (simp add: fun_eq_iff zeros_def cpu_element_zeros)
  have inner_loop: "fold (\<lambda>i cs. cs(j * cols + i := cpu_element rnd zeros zeros inner cols j i)) is zeros
                    = zeros" for j "is"
    by (rule fold_fixed) (rule upd)
  show ?thesis
    unfolding cpu_pass_def by (rule fold_fixed) (rule inner_loop)
qed

lemma reference_zeros:
  "cs_cpu_reference rnd (as_of zeros) (bs_of zeros rows inner) r k c iters = zeros"
proof -
  have a: "as_of zeros = zeros" and b: "bs_of zeros rows inner = zeros"
    by (simp_all add: fun_eq_iff as_of_def bs_of_def zeros_def)
  have z: "(\<lambda>i. Fin 0) = zeros" by (simp add: fun_eq_iff zeros_def)
  have "fold (\<lambda>iter cs. cpu_pass rnd zeros zeros r k c cs) [0..<iters] zeros = zeros"
    by (rule fold_fixed) (rule cpu_pass_zeros)
  then show ?thesis by (simp add: cs_cpu_reference_def a b z)
qed

lemma diff_sum_ones_zeros:
  "fold (diff_step Fin (device_ones v iter) zeros) [0..<k] (Fin 0) = Fin (real k)"
proof (induction k)
  case 0
  show ?case by simp
next
  case (Suc k)
  have "diff_step Fin (device_ones v iter) zeros k (Fin (real k)) = Fin (real k + 1)"
    by (simp add: diff_step_def device_ones_def zeros_def nonzero_pair_def diff_def fsub_def
        divisor_def std_max_def fround_def)
  with Suc show ?case by (simp add: add.commute)
qed

lemma ones_too_big: "too_big Fin M N (device_ones v iter) zeros"
proof -
  have "diff_sum Fin M N (device_ones v iter) zeros = Fin 1048576"
    by (simp add: diff_sum_def diff_sum_ones_zeros unat_MN)
  then have "diff_avg Fin M N (device_ones v iter) zeros = Fin 1"
    by (simp add: diff_avg_def unat_MN fround_def)
  then show ?thesis
    by (simp add: too_big_def fgt_def tolerance_def)
qed

lemma zeros_pass: "\<not> too_big rnd M N (device_zeros v iter) zeros"
proof -
  have "device_zeros v iter = zeros" by (simp add: fun_eq_iff device_zeros_def zeros_def)
  moreover have "\<not> too_big rnd M N zeros zeros"
    by (rule identical_candidate) (simp_all add: zeros_def M_def N_def)
  ultimately show ?thesis by simp
qed

text \<open>
  C1, counterexample.  The generator returns zeros, so the reference is zero, and the device
  leaves ones in the output: the first kernel fails, the status is 1, and the other two
  kernels are not run.
\<close>

theorem matrix_failure_returns_at_once_counterexample:
  "map label (fst (main_matrix_multiplication Fin Fin zeros zeros device_ones))
     = [''Data generated'', ''CPU'', ''matrix_multiplication_naive'']
   \<and> snd (main_matrix_multiplication Fin Fin zeros zeros device_ones) = 1"
proof -
  let ?pass = "\<lambda>v. \<not> too_big Fin M N (last_output device_ones zeros benchmarkingIters v) zeros"
  have p: "\<not> ?pass v" for v
    by (simp add: last_output_def benchmarkingIters_def ones_too_big)
  have att: "attempted ?pass mm_kernels = [''matrix_multiplication_naive'']"
    using p by (simp add: mm_kernels_def attempted_Cons)
  have nall: "\<not> list_all ?pass mm_kernels"
    using p by (simp add: mm_kernels_def)
  have "mm_program Fin Fin M K N benchmarkingIters zeros zeros device_ones =
          (data_generated # cpu_block benchmarkingIters
             # map (\<lambda>v. fst (mm_block Fin M N benchmarkingIters zeros device_ones zeros v))
                   (attempted ?pass mm_kernels),
           if list_all ?pass mm_kernels then 0 else 1)"
    by (rule mm_program_eq) (simp_all add: reference_zeros)
  then show ?thesis
    using nall
    by (simp add: main_matrix_multiplication_def att data_generated_def cpu_block_def mm_block_eq)
qed

theorem matrix_failure_returns_at_once_witness:
  "map label (fst (mm_program Fin Fin M K N benchmarkingIters zeros zeros device_ones))
     = [''Data generated'', ''CPU''] @ [''matrix_multiplication_naive'']
   \<and> snd (mm_program Fin Fin M K N benchmarkingIters zeros zeros device_ones) = 1
   \<and> Cerr ''Too big difference!''
        \<in> set (trace (fst (mm_program Fin Fin M K N benchmarkingIters zeros zeros device_ones)))
   \<and> last (trace (fst (mm_program Fin Fin M K N benchmarkingIters zeros zeros device_ones)))
       = Cerr ''Too big difference!''
   \<and> map label (fst (mm_program Fin Fin M K N benchmarkingIters zeros zeros device_zeros))
     = [''Data generated'', ''CPU''] @ mm_kernels
   \<and> snd (mm_program Fin Fin M K N benchmarkingIters zeros zeros device_zeros) = 0
   \<and> Cerr ''Too big difference!''
        \<notin> set (trace (fst (mm_program Fin Fin M K N benchmarkingIters zeros zeros device_zeros)))"
proof -
  let ?pass = "\<lambda>v. \<not> too_big Fin M N (last_output device_ones zeros benchmarkingIters v) zeros"
  let ?fine = "\<lambda>v. \<not> too_big Fin M N (last_output device_zeros zeros benchmarkingIters v) zeros"
  have p: "\<not> ?pass v" for v
    by (simp add: last_output_def benchmarkingIters_def ones_too_big)
  have att: "attempted ?pass mm_kernels = [''matrix_multiplication_naive'']"
    using p by (simp add: mm_kernels_def attempted_Cons)
  have nall: "\<not> list_all ?pass mm_kernels"
    using p by (simp add: mm_kernels_def)
  have p0: "?fine v" for v
    by (simp add: last_output_def benchmarkingIters_def zeros_pass)
  then have all0: "list_all ?fine mm_kernels" by (simp add: list_all_iff)
  have att0: "attempted ?fine mm_kernels = mm_kernels"
    using all0 by (rule attempted_all)
  have r: "zeros = cs_cpu_reference Fin (as_of zeros) (bs_of zeros M K)
                     (unat M) (unat K) (unat N) benchmarkingIters"
    by (simp add: reference_zeros)
  from matrix_failure_returns_at_once
         [where ?rnd32.0 = Fin and ?rnd64.0 = Fin and rows = M and inner = K and cols = N
            and iters = benchmarkingIters and nextf = zeros and dev_cs = zeros
            and device = device_ones and reference = zeros,
          OF prod.collapse [symmetric] r refl]
       matrix_failure_returns_at_once
         [where ?rnd32.0 = Fin and ?rnd64.0 = Fin and rows = M and inner = K and cols = N
            and iters = benchmarkingIters and nextf = zeros and dev_cs = zeros
            and device = device_zeros and reference = zeros,
          OF prod.collapse [symmetric] r refl]
    att nall att0 all0
  show ?thesis by auto
qed

section \<open>Trials, uploads, downloads and validations\<close>

subsection \<open>The blocks of the reduction program\<close>

lemma trial_loop_mem:
  "t \<in> set (fst (trial_loop body iters)) \<Longrightarrow> \<exists>iter\<in>set iters. t = fst (body iter)"
proof (induction iters)
  case Nil
  then show ?case by simp
next
  case (Cons iter iters)
  obtain es r where b: "body iter = (es, r)" by (cases "body iter")
  show ?case
  proof (cases r)
    case (Inl e)
    with b Cons.prems show ?thesis by simp
  next
    case (Inr u)
    with b Cons show ?thesis by (auto simp add: case_prod_beta)
  qed
qed

lemma trial_shape:
  "fst (trial cnt reference_sum v result) = launch v cnt @ [Check v, NextLap]
   \<or> fst (trial cnt reference_sum v result) = launch v cnt @ [Check v, Cerr (message v)]"
  by (simp add: trial_def raiseFail_def)

lemma run_blocks_mem:
  "b \<in> set (fst (run_blocks blk vs)) \<Longrightarrow> \<exists>v\<in>set vs. b = fst (blk v)"
proof (induction vs)
  case Nil
  then show ?case by simp
next
  case (Cons v vs)
  obtain c r where c: "blk v = (c, r)" by (cases "blk v")
  show ?case
  proof (cases r)
    case (Inl e)
    with c Cons.prems show ?thesis by simp
  next
    case (Inr u)
    with c Cons show ?thesis by (auto simp add: case_prod_beta)
  qed
qed

lemma sum_program_mem:
  assumes "b \<in> set (fst (sum_program cnt iters raw schedule device))"
  shows "b = device_setup
       \<or> (\<exists>v\<in>set sum_variants. \<exists>reference_sum cand.
             b = fst (sum_block cnt iters reference_sum cand v))"
proof -
  obtain xs reference_sum where g: "generate raw cnt = (xs, reference_sum)"
    by (cases "generate raw cnt")
  let ?blk = "\<lambda>v. sum_block cnt iters reference_sum (candidate xs cnt schedule device v) v"
  obtain hs hr where h: "run_blocks ?blk [''CPU'', ''CPU OMP''] = (hs, hr)"
    by (cases "run_blocks ?blk [''CPU'', ''CPU OMP'']")
  obtain gs gr where k: "run_blocks ?blk sum_kernels = (gs, gr)"
    by (cases "run_blocks ?blk sum_kernels")
  have "set (fst (sum_program cnt iters raw schedule device)) \<subseteq> set hs \<union> {device_setup} \<union> set gs"
    using g h k by (cases hr; cases gr) (auto simp add: sum_program_def)
  with assms have "b \<in> set hs \<or> b = device_setup \<or> b \<in> set gs" by auto
  moreover have "\<exists>v\<in>set sum_variants. b = fst (?blk v)" if "b \<in> set hs"
    using run_blocks_mem [of b ?blk "[''CPU'', ''CPU OMP'']"] that h
    by (auto simp add: sum_variants_def)
  moreover have "\<exists>v\<in>set sum_variants. b = fst (?blk v)" if "b \<in> set gs"
    using run_blocks_mem [of b ?blk sum_kernels] that k
    by (auto simp add: sum_variants_def)
  ultimately show ?thesis by blast
qed

lemma sum_block_before:
  "before (fst (sum_block cnt iters reference_sum cand v)) =
     (if v = ''CPU'' \<or> v = ''CPU OMP'' then [] else [Compile v]) @ [TimerStart]"
  by (simp add: sum_block_def case_prod_beta)

lemma sum_block_after:
  "after (fst (sum_block cnt iters reference_sum cand v)) = []
   \<or> after (fst (sum_block cnt iters reference_sum cand v)) = [Cout v, Cout v]"
  by (cases "snd (trial_loop (\<lambda>iter. trial cnt reference_sum v (cand iter)) [0..<iters])")
     (simp_all add: sum_block_def case_prod_beta)

lemma sum_block_trial_shape:
  assumes "t \<in> set (trials (fst (sum_block cnt iters reference_sum cand v)))"
  shows "t = launch v cnt @ [Check v, NextLap] \<or> t = launch v cnt @ [Check v, Cerr (message v)]"
proof -
  from assms obtain iter where "t = fst (trial cnt reference_sum v (cand iter))"
    using trial_loop_mem [of t "\<lambda>iter. trial cnt reference_sum v (cand iter)" "[0..<iters]"]
    by (auto simp add: sum_block_trials)
  then show ?thesis using trial_shape [of cnt reference_sum v "cand iter"] by simp
qed

lemma launch_cases:
  "launch v cnt = [] \<or>
   launch v cnt = [WriteN result_gpu, Exec v (WorkSize1 workGroupSize (global_work_size v cnt)),
                   ReadN result_gpu]"
  by (simp add: launch_def)

subsection \<open>The blocks of the matrix program\<close>

lemma mm_program_mem:
  assumes "b \<in> set (fst (mm_program rnd32 rnd64 rows inner cols iters nextf dev_cs device))"
    and "reference = cs_cpu_reference rnd32 (as_of nextf) (bs_of nextf rows inner)
                       (unat rows) (unat inner) (unat cols) iters"
  shows "b = data_generated \<or> b = cpu_block iters
       \<or> (\<exists>v\<in>set mm_kernels. b = fst (mm_block rnd64 rows cols iters reference device dev_cs v))"
proof -
  from mm_program_eq [OF assms(2) refl, where ?rnd64.0 = rnd64 and device = device and dev_cs = dev_cs] assms(1)
  have "b = data_generated \<or> b = cpu_block iters
        \<or> b \<in> (\<lambda>v. fst (mm_block rnd64 rows cols iters reference device dev_cs v))
                ` set (attempted (\<lambda>v. \<not> too_big rnd64 rows cols (last_output device dev_cs iters v) reference)
                         mm_kernels)"
    by auto
  then show ?thesis using attempted_subset by fastforce
qed


lemma host_labels_not_kernels:
  "label data_generated \<notin> set mm_kernels" "label (cpu_block iters) \<notin> set mm_kernels"
  by (simp_all add: data_generated_def cpu_block_def mm_kernels_def)

lemma mm_block_fields:
  "label (fst (mm_block rnd rows cols iters reference device dev_cs v)) = v"
  "before (fst (mm_block rnd rows cols iters reference device dev_cs v)) =
     [WriteN as_gpu, WriteN bs_gpu, Compile v, TimerStart]"
  "trials (fst (mm_block rnd rows cols iters reference device dev_cs v)) =
     replicate iters [Exec v (mm_work_size v rows cols), NextLap]"
  "after (fst (mm_block rnd rows cols iters reference device dev_cs v)) =
     mm_after (too_big rnd rows cols (last_output device dev_cs iters v) reference) v"
  by (simp_all add: mm_block_eq)

lemma mm_program_cases:
  assumes "b \<in> set (fst (mm_program rnd32 rnd64 rows inner cols iters nextf dev_cs device))"
    and "reference = cs_cpu_reference rnd32 (as_of nextf) (bs_of nextf rows inner)
                       (unat rows) (unat inner) (unat cols) iters"
  obtains "b = data_generated" "label b \<notin> set mm_kernels"
        | "b = cpu_block iters" "label b \<notin> set mm_kernels"
        | v where "b = fst (mm_block rnd64 rows cols iters reference device dev_cs v)" "label b = v"
  using mm_program_mem [OF assms] host_labels_not_kernels mm_block_fields(1)
  by metis

subsection \<open>Runs in which every candidate agrees\<close>

lemma trial_loop_all_agree:
  assumes "\<forall>iter\<in>set iters. cand iter = reference_sum"
  shows "trial_loop (\<lambda>iter. trial cnt reference_sum v (cand iter)) iters =
           (replicate (length iters) (launch v cnt @ [Check v, NextLap]), Inr ())"
  using assms by (induction iters) (simp_all add: trial_def raiseFail_def)

lemma sum_block_all_agree:
  assumes "\<forall>iter<iters. cand iter = reference_sum"
  shows "sum_block cnt iters reference_sum cand v = (complete_block cnt iters v, Inr ())"
proof -
  have "trial_loop (\<lambda>iter. trial cnt reference_sum v (cand iter)) [0..<iters] =
          (replicate (length [0..<iters]) (launch v cnt @ [Check v, NextLap]), Inr ())"
    by (rule trial_loop_all_agree) (use assms in simp)
  then show ?thesis by (simp add: sum_block_def complete_block_def)
qed

lemma run_blocks_all_agree:
  assumes "\<forall>v\<in>set vs. blk v = (f v, Inr ())"
  shows "run_blocks blk vs = (map f vs, Inr ())"
  using assms by (induction vs) simp_all

lemma sum_program_all_agree:
  assumes "generate raw cnt = (xs, reference_sum)"
    and "\<forall>v\<in>set sum_variants. \<forall>iter<iters. candidate xs cnt schedule device v iter = reference_sum"
  shows "sum_program cnt iters raw schedule device =
           (map (complete_block cnt iters) [''CPU'', ''CPU OMP'']
              @ device_setup # map (complete_block cnt iters) sum_kernels, Inr 0)"
proof -
  let ?blk = "\<lambda>v. sum_block cnt iters reference_sum (candidate xs cnt schedule device v) v"
  have blk: "?blk v = (complete_block cnt iters v, Inr ())" if "v \<in> set sum_variants" for v
    by (rule sum_block_all_agree) (use assms(2) that in simp)
  have "run_blocks ?blk [''CPU'', ''CPU OMP''] = (map (complete_block cnt iters) [''CPU'', ''CPU OMP''], Inr ())"
    by (rule run_blocks_all_agree) (use blk in \<open>simp add: sum_variants_def\<close>)
  moreover have "run_blocks ?blk sum_kernels = (map (complete_block cnt iters) sum_kernels, Inr ())"
    by (rule run_blocks_all_agree) (use blk in \<open>simp add: sum_variants_def\<close>)
  ultimately show ?thesis
    using assms(1) by (simp add: sum_program_def)
qed

lemma generate_zeros: "\<exists>xs. generate raw_zeros cnt = (xs, 0)"
proof -
  have "generated_value raw_zeros cnt = (\<lambda>i. 0)"
    by (simp add: fun_eq_iff generated_value_def FastRandom_next_def raw_zeros_def)
  then show ?thesis by (simp add: generate_eq)
qed

lemma one_thread_schedule: "omp_schedule (unat n) (one_thread iter)"
  by (simp add: omp_schedule_def one_thread_def sorted_sort_id)

lemma main_sum_zero_run:
  "main_sum raw_zeros one_thread device_sum_zero =
     (map (complete_block n benchmarkingIters) [''CPU'', ''CPU OMP'']
        @ device_setup # map (complete_block n benchmarkingIters) sum_kernels, Inr 0)"
proof -
  obtain xs where g: "generate raw_zeros n = (xs, 0)"
    using generate_zeros by blast
  note gs = generate_sequential [OF g]
  have cpu: "sequential_sum xs (unat n) = 0" by (rule gs(3))
  have omp: "omp_sum xs (one_thread iter) = 0" for iter
    using omp_sum_sequential [OF one_thread_schedule, of xs iter] cpu by simp
  have "candidate xs n one_thread device_sum_zero v iter = 0" for v iter
    by (simp add: candidate_def cpu omp device_sum_zero_def)
  then show ?thesis
    unfolding main_sum_def by (intro sum_program_all_agree [OF g]) simp
qed

lemma main_matrix_zero_run:
  "main_matrix_multiplication rnd32 rnd64 zeros zeros device_zeros =
     (data_generated # cpu_block benchmarkingIters
        # map (\<lambda>v. fst (mm_block rnd64 M N benchmarkingIters zeros device_zeros zeros v)) mm_kernels,
      0)"
proof -
  let ?pass = "\<lambda>v. \<not> too_big rnd64 M N (last_output device_zeros zeros benchmarkingIters v) zeros"
  have p: "?pass v" for v
    by (simp add: last_output_def benchmarkingIters_def zeros_pass)
  then have "list_all ?pass mm_kernels" by (simp add: list_all_iff)
  then have a: "attempted ?pass mm_kernels = mm_kernels" and l: "list_all ?pass mm_kernels"
    by (simp_all add: attempted_all)
  have "mm_program rnd32 rnd64 M K N benchmarkingIters zeros zeros device_zeros =
          (data_generated # cpu_block benchmarkingIters
             # map (\<lambda>v. fst (mm_block rnd64 M N benchmarkingIters zeros device_zeros zeros v))
                   (attempted ?pass mm_kernels),
           if list_all ?pass mm_kernels then 0 else 1)"
    by (rule mm_program_eq) (simp_all add: reference_zeros)
  then show ?thesis
    unfolding a using l by (simp add: main_matrix_multiplication_def)
qed


subsection \<open>Uploads and downloads around a launch\<close>

lemma sum_block_no_input_upload:
  "WriteN as_gpu \<notin> set (events_of (fst (sum_block cnt iters reference_sum cand v)))"
proof -
  let ?b = "fst (sum_block cnt iters reference_sum cand v)"
  have "WriteN as_gpu \<notin> set t" if "t \<in> set (trials ?b)" for t
    using sum_block_trial_shape [OF that] launch_cases [of v cnt] by auto
  moreover have "WriteN as_gpu \<notin> set (before ?b)"
    by (simp add: sum_block_before)
  moreover have "WriteN as_gpu \<notin> set (after ?b)"
    using sum_block_after [of cnt iters reference_sum cand v] by auto
  ultimately show ?thesis by (auto simp add: events_of_def)
qed

subsection \<open>The order of the blocks\<close>

lemma run_blocks_labels:
  assumes "\<And>v. label (fst (blk v)) = v"
  shows "map label (fst (run_blocks blk vs)) = take (length (fst (run_blocks blk vs))) vs"
proof (induction vs)
  case Nil
  show ?case by simp
next
  case (Cons v vs)
  obtain c r where c: "blk v = (c, r)" by (cases "blk v")
  then have l: "label c = v" using assms [of v] by simp
  show ?case
  proof (cases r)
    case (Inl e)
    with c l show ?thesis by simp
  next
    case (Inr u)
    with c l Cons show ?thesis by (simp add: case_prod_beta)
  qed
qed

lemma run_blocks_Inr_length:
  "snd (run_blocks blk vs) = Inr u \<Longrightarrow> length (fst (run_blocks blk vs)) = length vs"
proof (induction vs)
  case Nil
  show ?case by simp
next
  case (Cons v vs)
  obtain c r where c: "blk v = (c, r)" by (cases "blk v")
  show ?case
  proof (cases r)
    case (Inl e)
    with c Cons.prems show ?thesis by simp
  next
    case (Inr w)
    with c Cons show ?thesis by (simp add: case_prod_beta)
  qed
qed

lemma run_blocks_length_le: "length (fst (run_blocks blk vs)) \<le> length vs"
proof (induction vs)
  case Nil
  show ?case by simp
next
  case (Cons v vs)
  obtain c r where c: "blk v = (c, r)" by (cases "blk v")
  show ?case
  proof (cases r)
    case (Inl e)
    with c show ?thesis by simp
  next
    case (Inr w)
    with c Cons show ?thesis by (simp add: case_prod_beta)
  qed
qed

lemma take_append_le: "k \<le> length xs \<Longrightarrow> take k (xs @ ys) = take k xs"
  by simp

lemma sum_program_labels:
  "map label (fst (sum_program cnt iters raw schedule device)) =
     take (length (fst (sum_program cnt iters raw schedule device)))
          ([''CPU'', ''CPU OMP'', ''device setup''] @ sum_kernels)"
proof -
  obtain xs reference_sum where g: "generate raw cnt = (xs, reference_sum)"
    by (cases "generate raw cnt")
  let ?blk = "\<lambda>v. sum_block cnt iters reference_sum (candidate xs cnt schedule device v) v"
  let ?hosts = "[''CPU'', ''CPU OMP'']"
  obtain hs hr where h: "run_blocks ?blk ?hosts = (hs, hr)"
    by (cases "run_blocks ?blk ?hosts")
  obtain gs gr where k: "run_blocks ?blk sum_kernels = (gs, gr)"
    by (cases "run_blocks ?blk sum_kernels")
  have lab: "label (fst (?blk v)) = v" for v by (rule sum_block_label)
  have hl: "map label hs = take (length hs) ?hosts"
    using run_blocks_labels [of ?blk ?hosts, OF lab] h by simp
  have gl: "map label gs = take (length gs) sum_kernels"
    using run_blocks_labels [of ?blk sum_kernels, OF lab] k by simp
  have hlen: "length hs \<le> 2"
    using run_blocks_length_le [of ?blk ?hosts] h by simp
  show ?thesis
  proof (cases hr)
    case (Inl e)
    then have "fst (sum_program cnt iters raw schedule device) = hs"
      using g h by (simp add: sum_program_def)
    moreover have "take (length hs) (?hosts @ (''device setup'' # sum_kernels)) = take (length hs) ?hosts"
      by (rule take_append_le) (use hlen in simp)
    ultimately show ?thesis using hl by simp
  next
    case (Inr u)
    then have len: "length hs = 2"
      using run_blocks_Inr_length [of ?blk ?hosts u] h by simp
    have "fst (sum_program cnt iters raw schedule device) = hs @ device_setup # gs"
      using g h k Inr by (cases gr) (simp_all add: sum_program_def)
    then show ?thesis
      using hl gl len by (simp add: device_setup_def)
  qed
qed

lemma device_setup_label: "label b = ''device setup'' \<Longrightarrow>
    b \<in> set (fst (sum_program cnt iters raw schedule device)) \<Longrightarrow> b = device_setup"
  using sum_program_mem [of b cnt iters raw schedule device]
  by (auto simp add: sum_block_label sum_variants_def sum_kernels_def)

lemma launch_kernel:
  "v \<in> set sum_kernels \<Longrightarrow>
   launch v cnt = [WriteN result_gpu, Exec v (WorkSize1 workGroupSize (global_work_size v cnt)),
                   ReadN result_gpu]"
  by (auto simp add: launch_def sum_kernels_def)

lemma launch_host: "v \<in> set [''CPU'', ''CPU OMP''] \<Longrightarrow> launch v cnt = []"
  by (auto simp add: launch_def)

lemma sum_program_block:
  assumes "b \<in> set (fst (sum_program cnt iters raw schedule device))"
  obtains "b = device_setup" "label b = ''device setup''"
    | reference_sum cand where "b = fst (sum_block cnt iters reference_sum cand (label b))"
        "label b \<in> set sum_variants" "label b \<noteq> ''device setup''"
proof -
  from sum_program_mem [OF assms]
  consider "b = device_setup"
    | v reference_sum cand where "v \<in> set sum_variants"
        "b = fst (sum_block cnt iters reference_sum cand v)"
    by blast
  then show ?thesis
  proof cases
    case 1
    then show ?thesis using that(1) by (simp add: device_setup_def)
  next
    case 2
    then have l: "label b = v" by (simp add: sum_block_label)
    have "v \<noteq> ''device setup''"
      using 2(1) by (auto simp add: sum_variants_def sum_kernels_def)
    with 2 l show ?thesis using that(2) by simp
  qed
qed

lemma sum_block_length_le:
  "length (trials (fst (sum_block cnt iters reference_sum cand v))) \<le> iters"
  by (simp add: sum_block_trials trial_loop_length attempted_take)

lemma sum_block_completed:
  assumes "after (fst (sum_block cnt iters reference_sum cand v)) \<noteq> []"
  shows "sum_block cnt iters reference_sum cand v = (complete_block cnt iters v, Inr ())"
proof -
  let ?loop = "trial_loop (\<lambda>iter. trial cnt reference_sum v (cand iter)) [0..<iters]"
  have "snd ?loop \<noteq> Inl (RuntimeError (message v))"
    using assms by (auto simp add: sum_block_def case_prod_beta)
  then have "list_all (\<lambda>iter. cand iter = reference_sum) [0..<iters]"
    by (simp add: trial_loop_result split: if_splits)
  then have "\<forall>iter<iters. cand iter = reference_sum"
    by (simp add: list_all_iff)
  then show ?thesis by (rule sum_block_all_agree)
qed

lemma filter_Check_replicate:
  "filter is_Check (concat (replicate k (launch v cnt @ [Check v, NextLap]))) = replicate k (Check v)"
  using launch_cases [of v cnt] by (induction k) auto

lemma attempted_is_take: "attempted ok xs = take (length (attempted ok xs)) xs"
  by (cases "Suc (length (takeWhile ok xs)) \<le> length xs") (simp_all add: attempted_take min_def)

lemma mm_program_labels:
  "map label (fst (mm_program rnd32 rnd64 rows inner cols iters nextf dev_cs device)) =
     take (length (fst (mm_program rnd32 rnd64 rows inner cols iters nextf dev_cs device)))
          ([''Data generated'', ''CPU''] @ mm_kernels)"
proof -
  let ?reference = "cs_cpu_reference rnd32 (as_of nextf) (bs_of nextf rows inner)
                      (unat rows) (unat inner) (unat cols) iters"
  let ?pass = "\<lambda>v. \<not> too_big rnd64 rows cols (last_output device dev_cs iters v) ?reference"
  have "map label (map (\<lambda>v. fst (mm_block rnd64 rows cols iters ?reference device dev_cs v))
                       (attempted ?pass mm_kernels)) = attempted ?pass mm_kernels"
    by (simp add: mm_block_fields comp_def)
  moreover have "attempted ?pass mm_kernels = take (length (attempted ?pass mm_kernels)) mm_kernels"
    by (rule attempted_is_take)
  ultimately show ?thesis
    using mm_program_eq [OF refl refl, where ?rnd64.0 = rnd64 and device = device and dev_cs = dev_cs
        and ?rnd32.0 = rnd32 and nextf = nextf and rows = rows and inner = inner and cols = cols
        and iters = iters]
    by (simp add: data_generated_def cpu_block_def)
qed

lemma sum_program_trial_shape:
  assumes "b \<in> set (fst (sum_program cnt iters raw schedule device))" and "t \<in> set (trials b)"
  shows "\<exists>fin. (fin = NextLap \<or> fin = Cerr (message (label b)))
              \<and> t = launch (label b) cnt @ [Check (label b), fin]"
  using assms(1)
proof (cases rule: sum_program_block)
  case 1
  with assms(2) show ?thesis by (simp add: device_setup_def)
next
  case (2 reference_sum cand)
  with assms(2) have "t \<in> set (trials (fst (sum_block cnt iters reference_sum cand (label b))))"
    by simp
  from sum_block_trial_shape [OF this] show ?thesis by auto
qed

text \<open>
  C4 as amended.  Reduction program: the blocks run in the order host variants, device
  setup, kernels; the input array is uploaded in the device setup and nowhere else, hence
  once and before the first kernel block; a trial of a host variant is the comparison
  alone; a trial of a kernel is the upload of the zeroed result cell, the launch, the
  download of the result cell and the comparison, ended by the lap or by the diagnostic.
  Matrix program: the blocks run in program order; a kernel block uploads the two inputs
  before the timer starts, each of its trials is the launch and the end of the lap, nothing
  else, and after the trial loop it downloads the output once.
\<close>

theorem transfers_around_launches:
  "map label (fst (sum_program cnt iters raw schedule device)) =
     take (length (fst (sum_program cnt iters raw schedule device)))
          ([''CPU'', ''CPU OMP'', ''device setup''] @ sum_kernels)
   \<and> (\<forall>b\<in>set (fst (sum_program cnt iters raw schedule device)).
        (label b = ''device setup'' \<longrightarrow>
           before b = [WriteN as_gpu] \<and> trials b = [] \<and> after b = [])
      \<and> (label b \<noteq> ''device setup'' \<longrightarrow> WriteN as_gpu \<notin> set (events_of b))
      \<and> (label b \<in> set [''CPU'', ''CPU OMP''] \<longrightarrow>
           (\<forall>t\<in>set (trials b).
              \<exists>fin. (fin = NextLap \<or> fin = Cerr (message (label b)))
                  \<and> t = [Check (label b), fin]))
      \<and> (label b \<in> set sum_kernels \<longrightarrow>
           (\<forall>t\<in>set (trials b).
              \<exists>fin. (fin = NextLap \<or> fin = Cerr (message (label b)))
                  \<and> t = [WriteN result_gpu,
                         Exec (label b) (WorkSize1 workGroupSize (global_work_size (label b) cnt)),
                         ReadN result_gpu, Check (label b), fin])))
   \<and> map label (fst (mm_program rnd32 rnd64 rows inner cols its nextf dev_cs dev)) =
       take (length (fst (mm_program rnd32 rnd64 rows inner cols its nextf dev_cs dev)))
            ([''Data generated'', ''CPU''] @ mm_kernels)
   \<and> (\<forall>b\<in>set (fst (mm_program rnd32 rnd64 rows inner cols its nextf dev_cs dev)).
        (\<forall>t\<in>set (trials b).
           t = [NextLap] \<or> t = [Exec (label b) (mm_work_size (label b) rows cols), NextLap])
      \<and> (label b \<notin> set mm_kernels \<longrightarrow> b = data_generated \<or> b = cpu_block its)
      \<and> (label b \<in> set mm_kernels \<longrightarrow>
           before b = [WriteN as_gpu, WriteN bs_gpu, Compile (label b), TimerStart]
         \<and> trials b = replicate its [Exec (label b) (mm_work_size (label b) rows cols), NextLap]
         \<and> (after b = [Cout (label b), Cout (label b), ReadN cs_gpu, Check (label b),
                        Cout ''Average difference: '']
            \<or> after b = [Cout (label b), Cout (label b), ReadN cs_gpu, Check (label b),
                          Cout ''Average difference: '', Cerr ''Too big difference!''])))"
proof (intro conjI ballI)
  show "map label (fst (sum_program cnt iters raw schedule device)) =
     take (length (fst (sum_program cnt iters raw schedule device)))
          ([''CPU'', ''CPU OMP'', ''device setup''] @ sum_kernels)"
    by (rule sum_program_labels)
  show "map label (fst (mm_program rnd32 rnd64 rows inner cols its nextf dev_cs dev)) =
       take (length (fst (mm_program rnd32 rnd64 rows inner cols its nextf dev_cs dev)))
            ([''Data generated'', ''CPU''] @ mm_kernels)"
    by (rule mm_program_labels)
next
  fix b
  assume b: "b \<in> set (fst (sum_program cnt iters raw schedule device))"
  from b show "label b = ''device setup'' \<longrightarrow>
           before b = [WriteN as_gpu] \<and> trials b = [] \<and> after b = []"
    by (cases rule: sum_program_block) (simp_all add: device_setup_def)
  from b show "label b \<noteq> ''device setup'' \<longrightarrow> WriteN as_gpu \<notin> set (events_of b)"
  proof (cases rule: sum_program_block)
    case 1
    then show ?thesis by simp
  next
    case (2 reference_sum cand)
    then show ?thesis
      using sum_block_no_input_upload [of cnt iters reference_sum cand "label b"] by simp
  qed
  show "label b \<in> set [''CPU'', ''CPU OMP''] \<longrightarrow>
           (\<forall>t\<in>set (trials b).
              \<exists>fin. (fin = NextLap \<or> fin = Cerr (message (label b)))
                  \<and> t = [Check (label b), fin])"
    using sum_program_trial_shape [OF b] launch_host [of "label b" cnt] by fastforce
  show "label b \<in> set sum_kernels \<longrightarrow>
           (\<forall>t\<in>set (trials b).
              \<exists>fin. (fin = NextLap \<or> fin = Cerr (message (label b)))
                  \<and> t = [WriteN result_gpu,
                         Exec (label b) (WorkSize1 workGroupSize (global_work_size (label b) cnt)),
                         ReadN result_gpu, Check (label b), fin])"
    using sum_program_trial_shape [OF b] launch_kernel [of "label b" cnt] by fastforce
next
  fix b t
  assume b: "b \<in> set (fst (mm_program rnd32 rnd64 rows inner cols its nextf dev_cs dev))"
    and t: "t \<in> set (trials b)"
  from b refl show "t = [NextLap] \<or> t = [Exec (label b) (mm_work_size (label b) rows cols), NextLap]"
  proof (cases rule: mm_program_cases)
    case 1
    with t show ?thesis by (simp add: data_generated_def)
  next
    case 2
    with t show ?thesis by (simp add: cpu_block_def)
  next
    case (3 v)
    with t show ?thesis by (simp add: mm_block_fields)
  qed
next
  fix b
  assume b: "b \<in> set (fst (mm_program rnd32 rnd64 rows inner cols its nextf dev_cs dev))"
  from mm_program_mem [OF b refl]
  show "label b \<notin> set mm_kernels \<longrightarrow> b = data_generated \<or> b = cpu_block its"
    by (auto simp add: mm_block_fields)
  from b refl show "label b \<in> set mm_kernels \<longrightarrow>
           before b = [WriteN as_gpu, WriteN bs_gpu, Compile (label b), TimerStart]
         \<and> trials b = replicate its [Exec (label b) (mm_work_size (label b) rows cols), NextLap]
         \<and> (after b = [Cout (label b), Cout (label b), ReadN cs_gpu, Check (label b),
                        Cout ''Average difference: '']
            \<or> after b = [Cout (label b), Cout (label b), ReadN cs_gpu, Check (label b),
                          Cout ''Average difference: '', Cerr ''Too big difference!''])"
  proof (cases rule: mm_program_cases)
    case 1
    then show ?thesis by simp
  next
    case 2
    then show ?thesis by simp
  next
    case (3 v)
    then show ?thesis by (simp add: mm_block_fields mm_after_def)
  qed
qed

text \<open>
  C4, counterexample.  In the run of the matrix program where the generator returns zeros
  and the device leaves zeros, a trial of the first kernel is the launch followed by the end
  of the lap: no upload before the launch and no download after it within the trial.
\<close>

theorem transfers_around_launches_counterexample:
  "\<not> (\<forall>b\<in>set (fst (main_matrix_multiplication Fin Fin zeros zeros device_zeros)).
        \<forall>t\<in>set (trials b). bracketed t)"
proof
  let ?t = "[Exec ''matrix_multiplication_naive''
               (mm_work_size ''matrix_multiplication_naive'' M N), NextLap]"
  let ?b = "fst (mm_block Fin M N benchmarkingIters zeros device_zeros zeros
                   ''matrix_multiplication_naive'')"
  assume all: "\<forall>b\<in>set (fst (main_matrix_multiplication Fin Fin zeros zeros device_zeros)).
                 \<forall>t\<in>set (trials b). bracketed t"
  have "?b \<in> set (fst (main_matrix_multiplication Fin Fin zeros zeros device_zeros))"
    by (simp add: main_matrix_zero_run mm_kernels_def)
  moreover have "?t \<in> set (trials ?b)"
    by (simp add: mm_block_eq benchmarkingIters_def)
  ultimately have "bracketed ?t" using all by blast
  then have "is_Exec (?t ! 0) \<longrightarrow> (\<exists>e\<in>set (take 0 ?t). e \<in> set uploads)"
    unfolding bracketed_def by (metis length_greater_0_conv list.discI)
  then show False by simp
qed

lemma complete_block_fields:
  "after (complete_block cnt iters v) = [Cout v, Cout v]"
  "trials (complete_block cnt iters v) = replicate iters (launch v cnt @ [Check v, NextLap])"
  by (simp_all add: complete_block_def)

theorem transfers_around_launches_witness:
  "complete_block n benchmarkingIters ''sum_naive''
     \<in> set (fst (sum_program n benchmarkingIters raw_zeros one_thread device_sum_zero))
   \<and> label (complete_block n benchmarkingIters ''sum_naive'') \<in> set sum_kernels
   \<and> [WriteN result_gpu,
       Exec ''sum_naive'' (WorkSize1 workGroupSize (global_work_size ''sum_naive'' n)),
       ReadN result_gpu, Check ''sum_naive'', NextLap]
     \<in> set (trials (complete_block n benchmarkingIters ''sum_naive''))
   \<and> WriteN as_gpu \<notin> set (events_of (complete_block n benchmarkingIters ''sum_naive''))
   \<and> complete_block n benchmarkingIters ''CPU OMP''
     \<in> set (fst (sum_program n benchmarkingIters raw_zeros one_thread device_sum_zero))
   \<and> [Check ''CPU OMP'', NextLap] \<in> set (trials (complete_block n benchmarkingIters ''CPU OMP''))
   \<and> device_setup \<in> set (fst (sum_program n benchmarkingIters raw_zeros one_thread device_sum_zero))
   \<and> label device_setup = ''device setup''
   \<and> events_of device_setup = [WriteN as_gpu]
   \<and> fst (mm_block Fin M N benchmarkingIters zeros device_zeros zeros ''matrix_multiplication_many'')
     \<in> set (fst (mm_program Fin Fin M K N benchmarkingIters zeros zeros device_zeros))
   \<and> trials (fst (mm_block Fin M N benchmarkingIters zeros device_zeros zeros
                     ''matrix_multiplication_many''))
     = replicate benchmarkingIters
         [Exec ''matrix_multiplication_many'' (mm_work_size ''matrix_multiplication_many'' M N),
          NextLap]
   \<and> cpu_block benchmarkingIters
     \<in> set (fst (mm_program Fin Fin M K N benchmarkingIters zeros zeros device_zeros))
   \<and> label (cpu_block benchmarkingIters) \<notin> set mm_kernels"
proof -
  have s: "fst (sum_program n benchmarkingIters raw_zeros one_thread device_sum_zero) =
             map (complete_block n benchmarkingIters) [''CPU'', ''CPU OMP'']
               @ device_setup # map (complete_block n benchmarkingIters) sum_kernels"
    using main_sum_zero_run by (simp add: main_sum_def)
  have m: "fst (mm_program Fin Fin M K N benchmarkingIters zeros zeros device_zeros) =
             data_generated # cpu_block benchmarkingIters
               # map (\<lambda>v. fst (mm_block Fin M N benchmarkingIters zeros device_zeros zeros v)) mm_kernels"
    using main_matrix_zero_run [of Fin Fin] by (simp add: main_matrix_multiplication_def)
  have b1: "complete_block n benchmarkingIters ''sum_naive''
              \<in> set (fst (sum_program n benchmarkingIters raw_zeros one_thread device_sum_zero))"
    by (simp add: s sum_kernels_def)
  have l1: "label (complete_block n benchmarkingIters ''sum_naive'') \<in> set sum_kernels"
    by (simp add: complete_block_def sum_kernels_def)
  have n1: "label (complete_block n benchmarkingIters ''sum_naive'') \<noteq> ''device setup''"
    by (simp add: complete_block_def)
  have t1: "[WriteN result_gpu,
             Exec ''sum_naive'' (WorkSize1 workGroupSize (global_work_size ''sum_naive'' n)),
             ReadN result_gpu, Check ''sum_naive'', NextLap]
              \<in> set (trials (complete_block n benchmarkingIters ''sum_naive''))"
    by (simp add: complete_block_def launch_def benchmarkingIters_def)
  have b0: "complete_block n benchmarkingIters ''CPU OMP''
              \<in> set (fst (sum_program n benchmarkingIters raw_zeros one_thread device_sum_zero))"
    by (simp add: s)
  have l0: "label (complete_block n benchmarkingIters ''CPU OMP'') \<in> set [''CPU'', ''CPU OMP'']"
    by (simp add: complete_block_def)
  have t0: "[Check ''CPU OMP'', NextLap] \<in> set (trials (complete_block n benchmarkingIters ''CPU OMP''))"
    by (simp add: complete_block_def launch_def benchmarkingIters_def)
  have b2: "device_setup \<in> set (fst (sum_program n benchmarkingIters raw_zeros one_thread device_sum_zero))"
    by (simp add: s)
  have l2: "label device_setup = ''device setup''"
    by (simp add: device_setup_def)
  have e2: "events_of device_setup = [WriteN as_gpu]"
    by (simp add: events_of_def device_setup_def)
  have b3: "fst (mm_block Fin M N benchmarkingIters zeros device_zeros zeros ''matrix_multiplication_many'')
              \<in> set (fst (mm_program Fin Fin M K N benchmarkingIters zeros zeros device_zeros))"
    by (simp add: m mm_kernels_def)
  have l3: "label (fst (mm_block Fin M N benchmarkingIters zeros device_zeros zeros
                          ''matrix_multiplication_many'')) \<in> set mm_kernels"
    by (simp add: mm_block_eq mm_kernels_def)
  have b4: "cpu_block benchmarkingIters
              \<in> set (fst (mm_program Fin Fin M K N benchmarkingIters zeros zeros device_zeros))"
    by (simp add: m)
  have l4: "label (cpu_block benchmarkingIters) \<notin> set mm_kernels"
    by (rule host_labels_not_kernels)
  note T = transfers_around_launches
         [where cnt = n and iters = benchmarkingIters and raw = raw_zeros and schedule = one_thread
            and device = device_sum_zero and ?rnd32.0 = Fin and ?rnd64.0 = Fin and rows = M
            and inner = K and cols = N and its = benchmarkingIters and nextf = zeros
            and dev_cs = zeros and dev = device_zeros]
  from T b1 n1 have "WriteN as_gpu \<notin> set (events_of (complete_block n benchmarkingIters ''sum_naive''))"
    by blast
  moreover from T b3 l3
  have "trials (fst (mm_block Fin M N benchmarkingIters zeros device_zeros zeros
                     ''matrix_multiplication_many''))
     = replicate benchmarkingIters
         [Exec ''matrix_multiplication_many'' (mm_work_size ''matrix_multiplication_many'' M N),
          NextLap]"
    by (simp add: mm_block_fields)
  ultimately show ?thesis
    using b1 l1 t1 b0 t0 b2 l2 e2 b3 b4 l4 by simp
qed

subsection \<open>When the validation runs\<close>

text \<open>
  C5 as amended.  Matrix program: a kernel block runs all its trials without a validation;
  after the loop it downloads the output once and validates once, and the verdict is taken
  on what the last trial left in the output buffer.  Reduction program: no comparison
  outside the trials; every trial of a kernel ends with the download of the result cell,
  the comparison with the reference sum right after it, and the lap or the diagnostic;
  a block never has more trials than the iteration count, and a block that completes (it
  prints its statistics) has exactly that many, each with its comparison and each ended by
  the lap: ten for the program's \<open>benchmarkingIters\<close>.
\<close>

theorem validation_points:
  assumes "reference = cs_cpu_reference rnd32 (as_of nextf) (bs_of nextf rows inner)
                         (unat rows) (unat inner) (unat cols) its"
  shows
  "(\<forall>b\<in>set (fst (mm_program rnd32 rnd64 rows inner cols its nextf dev_cs dev)).
      filter is_Check (before b @ concat (trials b)) = []
    \<and> (label b \<in> set mm_kernels \<longrightarrow>
         length (trials b) = its
       \<and> after b = [Cout (label b), Cout (label b), ReadN cs_gpu, Check (label b),
                    Cout ''Average difference: '']
                   @ (if too_big rnd64 rows cols (last_output dev dev_cs its (label b)) reference
                      then [Cerr ''Too big difference!''] else [])))
   \<and> (\<forall>b\<in>set (fst (sum_program cnt iters raw schedule device)).
        filter is_Check (before b @ after b) = []
      \<and> length (trials b) \<le> iters
      \<and> (label b = ''device setup'' \<or> label b \<in> set [''CPU'', ''CPU OMP'']
           \<or> label b \<in> set sum_kernels)
      \<and> (label b \<in> set [''CPU'', ''CPU OMP''] \<longrightarrow>
           (\<forall>t\<in>set (trials b).
              \<exists>fin. (fin = NextLap \<or> fin = Cerr (message (label b)))
                  \<and> t = [Check (label b), fin]))
      \<and> (label b \<in> set sum_kernels \<longrightarrow>
           (\<forall>t\<in>set (trials b).
              \<exists>fin. (fin = NextLap \<or> fin = Cerr (message (label b)))
                  \<and> t = [WriteN result_gpu,
                         Exec (label b) (WorkSize1 workGroupSize (global_work_size (label b) cnt)),
                         ReadN result_gpu, Check (label b), fin]))
      \<and> (after b \<noteq> [] \<longrightarrow>
           after b = [Cout (label b), Cout (label b)]
         \<and> length (trials b) = iters
         \<and> (\<forall>t\<in>set (trials b). last t = NextLap)
         \<and> filter is_Check (concat (trials b)) = replicate iters (Check (label b))))
   \<and> main_sum = sum_program n benchmarkingIters \<and> benchmarkingIters = 10"
proof (intro conjI ballI)
  show "main_sum = sum_program n benchmarkingIters" by (rule main_sum_def)
  show "benchmarkingIters = 10" by (rule benchmarkingIters_def)
next
  fix b
  assume b: "b \<in> set (fst (mm_program rnd32 rnd64 rows inner cols its nextf dev_cs dev))"
  have no_check: "filter is_Check (concat (replicate k [Exec v ws, NextLap])) = []" for k v ws
    by (induction k) simp_all
  from b assms show "filter is_Check (before b @ concat (trials b)) = []"
  proof (cases rule: mm_program_cases)
    case 1
    then show ?thesis by (simp add: data_generated_def)
  next
    case 2
    have "filter is_Check (concat (replicate k [NextLap])) = []" for k
      by (induction k) simp_all
    with 2 show ?thesis by (simp add: cpu_block_def)
  next
    case (3 v)
    then show ?thesis by (simp add: mm_block_fields no_check)
  qed
  from b assms show "label b \<in> set mm_kernels \<longrightarrow>
         length (trials b) = its
       \<and> after b = [Cout (label b), Cout (label b), ReadN cs_gpu, Check (label b),
                    Cout ''Average difference: '']
                   @ (if too_big rnd64 rows cols (last_output dev dev_cs its (label b)) reference
                      then [Cerr ''Too big difference!''] else [])"
  proof (cases rule: mm_program_cases)
    case 1
    then show ?thesis by simp
  next
    case 2
    then show ?thesis by simp
  next
    case (3 v)
    then show ?thesis by (simp add: mm_block_fields mm_after_def)
  qed
next
  fix b
  assume b: "b \<in> set (fst (sum_program cnt iters raw schedule device))"
  from b show "filter is_Check (before b @ after b) = []"
  proof (cases rule: sum_program_block)
    case 1
    then show ?thesis by (simp add: device_setup_def)
  next
    case (2 reference_sum cand)
    show ?thesis
      using sum_block_after [of cnt iters reference_sum cand "label b"]
        sum_block_before [of cnt iters reference_sum cand "label b"] 2(1)
      by auto
  qed
  from b show "length (trials b) \<le> iters"
  proof (cases rule: sum_program_block)
    case 1
    then show ?thesis by (simp add: device_setup_def)
  next
    case (2 reference_sum cand)
    show ?thesis
      using sum_block_length_le [of cnt iters reference_sum cand "label b"] 2(1) by simp
  qed
  from b show "label b = ''device setup'' \<or> label b \<in> set [''CPU'', ''CPU OMP'']
           \<or> label b \<in> set sum_kernels"
    by (cases rule: sum_program_block) (auto simp add: sum_variants_def)
  show "label b \<in> set [''CPU'', ''CPU OMP''] \<longrightarrow>
           (\<forall>t\<in>set (trials b).
              \<exists>fin. (fin = NextLap \<or> fin = Cerr (message (label b)))
                  \<and> t = [Check (label b), fin])"
    using sum_program_trial_shape [OF b] launch_host [of "label b" cnt] by fastforce
  show "label b \<in> set sum_kernels \<longrightarrow>
           (\<forall>t\<in>set (trials b).
              \<exists>fin. (fin = NextLap \<or> fin = Cerr (message (label b)))
                  \<and> t = [WriteN result_gpu,
                         Exec (label b) (WorkSize1 workGroupSize (global_work_size (label b) cnt)),
                         ReadN result_gpu, Check (label b), fin])"
    using sum_program_trial_shape [OF b] launch_kernel [of "label b" cnt] by fastforce
  from b show "after b \<noteq> [] \<longrightarrow>
           after b = [Cout (label b), Cout (label b)]
         \<and> length (trials b) = iters
         \<and> (\<forall>t\<in>set (trials b). last t = NextLap)
         \<and> filter is_Check (concat (trials b)) = replicate iters (Check (label b))"
  proof (cases rule: sum_program_block)
    case 1
    then show ?thesis by (simp add: device_setup_def)
  next
    case (2 reference_sum cand)
    show ?thesis
    proof
      assume "after b \<noteq> []"
      with 2(1) have "after (fst (sum_block cnt iters reference_sum cand (label b))) \<noteq> []"
        by simp
      from sum_block_completed [OF this] 2(1)
      have cb: "b = complete_block cnt iters (label b)" by simp
      have "after b = [Cout (label b), Cout (label b)]"
        and "trials b = replicate iters (launch (label b) cnt @ [Check (label b), NextLap])"
        by (metis cb complete_block_fields(1), metis cb complete_block_fields(2))
      then show "after b = [Cout (label b), Cout (label b)]
         \<and> length (trials b) = iters
         \<and> (\<forall>t\<in>set (trials b). last t = NextLap)
         \<and> filter is_Check (concat (trials b)) = replicate iters (Check (label b))"
        by (simp add: filter_Check_replicate)
    qed
  qed
qed

text \<open>
  C5, counterexample.  In the run of the reduction program where the generator returns
  zeros and the device returns the right sum, the block of \<open>sum_naive\<close> makes ten
  comparisons, one inside each of its ten trials, and none after its trial loop.
\<close>

theorem validation_points_counterexample:
  "label (fst (main_sum raw_zeros one_thread device_sum_zero) ! 3) = ''sum_naive''
   \<and> length (trials (fst (main_sum raw_zeros one_thread device_sum_zero) ! 3)) = 10
   \<and> length (filter is_Check (concat (trials (fst (main_sum raw_zeros one_thread device_sum_zero) ! 3)))) = 10
   \<and> filter is_Check (after (fst (main_sum raw_zeros one_thread device_sum_zero) ! 3)) = []"
proof -
  have "fst (main_sum raw_zeros one_thread device_sum_zero) ! 3
        = complete_block n benchmarkingIters ''sum_naive''"
    by (simp add: main_sum_zero_run sum_kernels_def numeral_3_eq_3)
  moreover have "filter is_Check (concat (replicate k (launch ''sum_naive'' n @ [Check ''sum_naive'', NextLap])))
                 = replicate k (Check ''sum_naive'')" for k
    by (induction k) (simp_all add: launch_def)
  ultimately show ?thesis
    by (simp add: complete_block_def benchmarkingIters_def)
qed

theorem validation_points_witness:
  "fst (mm_block Fin M N benchmarkingIters zeros device_ones zeros ''matrix_multiplication_naive'')
     \<in> set (fst (mm_program Fin Fin M K N benchmarkingIters zeros zeros device_ones))
   \<and> length (trials (fst (mm_block Fin M N benchmarkingIters zeros device_ones zeros
                             ''matrix_multiplication_naive''))) = 10
   \<and> after (fst (mm_block Fin M N benchmarkingIters zeros device_ones zeros
                   ''matrix_multiplication_naive''))
     = [Cout ''matrix_multiplication_naive'', Cout ''matrix_multiplication_naive'', ReadN cs_gpu,
        Check ''matrix_multiplication_naive'', Cout ''Average difference: '',
        Cerr ''Too big difference!'']
   \<and> complete_block n benchmarkingIters ''sum_tree''
     \<in> set (fst (sum_program n benchmarkingIters raw_zeros one_thread device_sum_zero))
   \<and> label (complete_block n benchmarkingIters ''sum_tree'') \<in> set sum_kernels
   \<and> after (complete_block n benchmarkingIters ''sum_tree'') \<noteq> []
   \<and> [WriteN result_gpu,
       Exec ''sum_tree'' (WorkSize1 workGroupSize (global_work_size ''sum_tree'' n)),
       ReadN result_gpu, Check ''sum_tree'', NextLap]
     \<in> set (trials (complete_block n benchmarkingIters ''sum_tree''))
   \<and> length (trials (complete_block n benchmarkingIters ''sum_tree'')) = 10
   \<and> filter is_Check (concat (trials (complete_block n benchmarkingIters ''sum_tree'')))
     = replicate 10 (Check ''sum_tree'')
   \<and> complete_block n benchmarkingIters ''CPU''
     \<in> set (fst (sum_program n benchmarkingIters raw_zeros one_thread device_sum_zero))
   \<and> [Check ''CPU'', NextLap] \<in> set (trials (complete_block n benchmarkingIters ''CPU''))"
proof -
  let ?b = "fst (mm_block Fin M N benchmarkingIters zeros device_ones zeros ''matrix_multiplication_naive'')"
  let ?c = "complete_block n benchmarkingIters ''sum_tree''"
  have r: "zeros = cs_cpu_reference Fin (as_of zeros) (bs_of zeros M K)
                     (unat M) (unat K) (unat N) benchmarkingIters"
    by (simp add: reference_zeros)
  have m: "fst (mm_program Fin Fin M K N benchmarkingIters zeros zeros device_ones) =
             [data_generated, cpu_block benchmarkingIters, ?b]"
  proof -
    let ?pass = "\<lambda>v. \<not> too_big Fin M N (last_output device_ones zeros benchmarkingIters v) zeros"
    have p: "\<not> ?pass v" for v
      by (simp add: last_output_def benchmarkingIters_def ones_too_big)
    have att: "attempted ?pass mm_kernels = [''matrix_multiplication_naive'']"
      using p by (simp add: mm_kernels_def attempted_Cons)
    show ?thesis
      using mm_program_eq [OF r refl, where ?rnd64.0 = Fin and device = device_ones and dev_cs = zeros]
      by (simp add: att)
  qed
  have b1: "?b \<in> set (fst (mm_program Fin Fin M K N benchmarkingIters zeros zeros device_ones))"
    by (simp add: m)
  have l1: "label ?b \<in> set mm_kernels"
    by (simp add: mm_block_eq mm_kernels_def)
  have tb: "too_big Fin M N (last_output device_ones zeros benchmarkingIters (label ?b)) zeros"
    by (simp add: last_output_def benchmarkingIters_def ones_too_big)
  have s: "fst (sum_program n benchmarkingIters raw_zeros one_thread device_sum_zero) =
             map (complete_block n benchmarkingIters) [''CPU'', ''CPU OMP'']
               @ device_setup # map (complete_block n benchmarkingIters) sum_kernels"
    using main_sum_zero_run by (simp add: main_sum_def)
  have b2: "?c \<in> set (fst (sum_program n benchmarkingIters raw_zeros one_thread device_sum_zero))"
    by (simp add: s sum_kernels_def)
  have l2: "label ?c \<in> set sum_kernels"
    by (simp add: complete_block_def sum_kernels_def)
  have lc: "label ?c = ''sum_tree''"
    by (simp add: complete_block_def)
  have a2: "after ?c \<noteq> []"
    by (simp add: complete_block_def)
  have t2: "[WriteN result_gpu,
             Exec ''sum_tree'' (WorkSize1 workGroupSize (global_work_size ''sum_tree'' n)),
             ReadN result_gpu, Check ''sum_tree'', NextLap] \<in> set (trials ?c)"
    by (simp add: complete_block_def launch_def benchmarkingIters_def)
  have b3: "complete_block n benchmarkingIters ''CPU''
              \<in> set (fst (sum_program n benchmarkingIters raw_zeros one_thread device_sum_zero))"
    by (simp add: s)
  have t3: "[Check ''CPU'', NextLap] \<in> set (trials (complete_block n benchmarkingIters ''CPU''))"
    by (simp add: complete_block_def launch_def benchmarkingIters_def)
  note V = validation_points
         [OF r, where cnt = n and iters = benchmarkingIters and raw = raw_zeros
            and schedule = one_thread and device = device_sum_zero and ?rnd64.0 = Fin
            and dev_cs = zeros and dev = device_ones]
  from V b1 l1 tb have mm: "length (trials ?b) = benchmarkingIters
      \<and> after ?b = [Cout (label ?b), Cout (label ?b), ReadN cs_gpu, Check (label ?b),
                    Cout ''Average difference: '', Cerr ''Too big difference!'']"
    by simp
  from V b2 a2 have rd: "length (trials ?c) = benchmarkingIters
      \<and> filter is_Check (concat (trials ?c)) = replicate benchmarkingIters (Check (label ?c))"
    by blast
  from V have ten: "benchmarkingIters = 10" by blast
  from mm rd ten lc b1 b2 l2 a2 t2 b3 t3 show ?thesis
    by (simp add: mm_block_fields(1))
qed

end
